theory Spec2Isabelle
  imports Main "HOL-Library.AList"
begin

section \<open>JavaScript values\<close>

text \<open>
  The node works on dynamically typed JavaScript values. They are embedded as a datatype
  over a number type \<open>'n\<close> that is left open: the number primitives of the language
  (printing, parsing, finiteness) are not code of this repository and are taken from a
  record of runtime primitives. \<open>JObj\<close> is a plain object as the list of its own
  enumerable properties in \<open>Object.keys\<close> order; \<open>JBare\<close> is an object, with its
  properties, that cannot be converted to a primitive (for instance one made by
  \<open>Object.create(null)\<close>), on which \<open>String(v)\<close> and \<open>Number(v)\<close> throw a TypeError.
  A string is a list of code units.
\<close>

datatype 'n jsval =
    JNull
  | JUndefined
  | JBool bool
  | JNum 'n
  | JStr string
  | JArr "'n jsval list"
  | JObj "(string \<times> 'n jsval) list"
  | JBare "(string \<times> 'n jsval) list"

record 'n js_runtime =
  num_to_string :: "'n \<Rightarrow> string"
  str_to_number :: "string \<Rightarrow> 'n"
  is_finite :: "'n \<Rightarrow> bool"
  num_falsy :: "'n \<Rightarrow> bool"
  num_zero :: 'n
  num_one :: 'n
  num_nan :: 'n
  is_ws :: "char \<Rightarrow> bool"
  to_upper :: "string \<Rightarrow> string"
  to_lower :: "string \<Rightarrow> string"
  json_stringify :: "'n jsval \<Rightarrow> string"

text \<open>
  Every \<open>throw\<close> of the source is a value of this type. \<open>ErrInvalidIdentifier\<close> is the
  \<open>Error\<close> of \<open>qid\<close> (with the printed name), \<open>ErrLookupFailed\<close> that of a strict lookup
  (alias and printed key), \<open>ErrInvalidDbPath\<close> that of the input handler, \<open>ErrType\<close> a
  TypeError of the language, and \<open>ErrExternal\<close> any error reported by a collaborator
  (the SQLite driver, the Node-RED utilities). \<open>NoReturn\<close> is not an error of the
  source: it marks a call of \<open>chunkify\<close> whose loop never ends, so that a run stuck in
  it is told apart from a run that returns.
\<close>

datatype error =
    ErrType
  | ErrInvalidIdentifier string
  | ErrLookupFailed string string
  | ErrInvalidDbPath
  | ErrExternal string
  | NoReturn

fun nullish :: "'n jsval \<Rightarrow> bool" where
  "nullish JNull = True"
| "nullish JUndefined = True"
| "nullish _ = False"

fun join_with :: "string \<Rightarrow> string list \<Rightarrow> string" where
  "join_with sep [] = []"
| "join_with sep [s] = s"
| "join_with sep (s # t # ts) = s @ sep @ join_with sep (t # ts)"

text \<open>
  \<open>String(v)\<close>: an array prints as its elements joined by a comma, \<open>null\<close> and
  \<open>undefined\<close> elements as the empty string; a plain object prints as
  \<open>[object Object]\<close>.
\<close>

fun js_String :: "'n js_runtime \<Rightarrow> 'n jsval \<Rightarrow> error + string"
  and js_Strings :: "'n js_runtime \<Rightarrow> 'n jsval list \<Rightarrow> error + string list" where
  "js_String rt JNull = Inr ''null''"
| "js_String rt JUndefined = Inr ''undefined''"
| "js_String rt (JBool b) = Inr (if b then ''true'' else ''false'')"
| "js_String rt (JNum n) = Inr (num_to_string rt n)"
| "js_String rt (JStr s) = Inr s"
| "js_String rt (JArr xs) =
     (case js_Strings rt xs of Inl e \<Rightarrow> Inl e | Inr ss \<Rightarrow> Inr (join_with '','' ss))"
| "js_String rt (JObj fs) = Inr ''[object Object]''"
| "js_String rt (JBare fs) = Inl ErrType"
| "js_Strings rt [] = Inr []"
| "js_Strings rt (x # xs) =
     (case (if nullish x then Inr [] else js_String rt x) of
        Inl e \<Rightarrow> Inl e
      | Inr s \<Rightarrow> (case js_Strings rt xs of Inl e \<Rightarrow> Inl e | Inr ss \<Rightarrow> Inr (s # ss)))"

text \<open>\<open>Number(v)\<close>; an object is first converted to its string form.\<close>

fun js_Number :: "'n js_runtime \<Rightarrow> 'n jsval \<Rightarrow> error + 'n" where
  "js_Number rt JNull = Inr (num_zero rt)"
| "js_Number rt JUndefined = Inr (num_nan rt)"
| "js_Number rt (JBool b) = Inr (if b then num_one rt else num_zero rt)"
| "js_Number rt (JNum n) = Inr n"
| "js_Number rt (JStr s) = Inr (str_to_number rt s)"
| "js_Number rt v =
     (case js_String rt v of Inl e \<Rightarrow> Inl e | Inr s \<Rightarrow> Inr (str_to_number rt s))"

text \<open>Truthiness, as tested by \<open>!v\<close>, \<open>a || b\<close> and \<open>filter(Boolean)\<close>.\<close>

fun truthy :: "'n js_runtime \<Rightarrow> 'n jsval \<Rightarrow> bool" where
  "truthy rt JNull = False"
| "truthy rt JUndefined = False"
| "truthy rt (JBool b) = b"
| "truthy rt (JNum n) = (\<not> num_falsy rt n)"
| "truthy rt (JStr s) = (s \<noteq> [])"
| "truthy rt _ = True"

definition js_trim :: "'n js_runtime \<Rightarrow> string \<Rightarrow> string" where
  "js_trim rt s = rev (dropWhile (is_ws rt) (rev (dropWhile (is_ws rt) s)))"

text \<open>
  A regular expression \<open>/^...$/i\<close> over letters is a list of pairs (lower case, upper
  case): the subject matches when it has the pattern's length and each code unit is one
  of the two. \<open>re_true\<close> is \<open>/^true$/i\<close> and \<open>re_na\<close> is \<open>/^N\/?A$/i\<close>.
\<close>

definition ci_match :: "(char \<times> char) list \<Rightarrow> string \<Rightarrow> bool" where
  "ci_match pat s = list_all2 (\<lambda>c p. c = fst p \<or> c = snd p) s pat"

definition re_true :: "string \<Rightarrow> bool" where
  "re_true s = ci_match [(CHR ''t'', CHR ''T''), (CHR ''r'', CHR ''R''),
                         (CHR ''u'', CHR ''U''), (CHR ''e'', CHR ''E'')] s"

definition re_na :: "string \<Rightarrow> bool" where
  "re_na s = (ci_match [(CHR ''n'', CHR ''N''), (CHR ''a'', CHR ''A'')] s
            \<or> ci_match [(CHR ''n'', CHR ''N''), (CHR ''/'', CHR ''/''), (CHR ''a'', CHR ''A'')] s)"

section \<open>The transform registry\<close>

definition t_none :: "'n jsval \<Rightarrow> error + 'n jsval" where
  "t_none v = Inr v"

definition t_trim :: "'n js_runtime \<Rightarrow> 'n jsval \<Rightarrow> error + 'n jsval" where
  "t_trim rt v =
     (if nullish v then Inr v
      else case js_String rt v of Inl e \<Rightarrow> Inl e | Inr s \<Rightarrow> Inr (JStr (js_trim rt s)))"

definition t_upper :: "'n js_runtime \<Rightarrow> 'n jsval \<Rightarrow> error + 'n jsval" where
  "t_upper rt v =
     (if nullish v then Inr v
      else case js_String rt v of Inl e \<Rightarrow> Inl e | Inr s \<Rightarrow> Inr (JStr (to_upper rt s)))"

definition t_lower :: "'n js_runtime \<Rightarrow> 'n jsval \<Rightarrow> error + 'n jsval" where
  "t_lower rt v =
     (if nullish v then Inr v
      else case js_String rt v of Inl e \<Rightarrow> Inl e | Inr s \<Rightarrow> Inr (JStr (to_lower rt s)))"

definition t_nz :: "'n js_runtime \<Rightarrow> 'n jsval \<Rightarrow> error + 'n jsval" where
  "t_nz rt v =
     (if nullish v then Inr JNull
      else case js_String rt v of
             Inl e \<Rightarrow> Inl e
           | Inr s0 \<Rightarrow> (let s = js_trim rt s0
                        in if s = [] \<or> re_na s then Inr JNull else Inr v))"

definition t_bool01 :: "'n js_runtime \<Rightarrow> 'n jsval \<Rightarrow> error + 'n jsval" where
  "t_bool01 rt v =
     (if v = JBool True \<or> v = JNum (num_one rt) \<or> v = JStr ''1''
      then Inr (JNum (num_one rt))
      else case js_String rt v of
             Inl e \<Rightarrow> Inl e
           | Inr s \<Rightarrow> Inr (JNum (if re_true s then num_one rt else num_zero rt)))"

definition t_number :: "'n js_runtime \<Rightarrow> 'n jsval \<Rightarrow> error + 'n jsval" where
  "t_number rt v =
     (if nullish v then Inr JNull
      else case js_String rt v of
             Inl e \<Rightarrow> Inl e
           | Inr s \<Rightarrow>
               (if js_trim rt s = [] then Inr JNull
                else (case js_Number rt v of
                        Inl e \<Rightarrow> Inl e
                      | Inr n \<Rightarrow> Inr (if is_finite rt n then JNum n else JNull))))"

definition t_string :: "'n js_runtime \<Rightarrow> 'n jsval \<Rightarrow> error + 'n jsval" where
  "t_string rt v =
     (if nullish v then Inr (JStr [])
      else case js_String rt v of Inl e \<Rightarrow> Inl e | Inr s \<Rightarrow> Inr (JStr s))"

definition transforms :: "'n js_runtime \<Rightarrow> (string \<times> ('n jsval \<Rightarrow> error + 'n jsval)) list" where
  "transforms rt =
     [(''none'', t_none), (''trim'', t_trim rt), (''upper'', t_upper rt),
      (''lower'', t_lower rt), (''nz'', t_nz rt), (''bool01'', t_bool01 rt),
      (''number'', t_number rt), (''string'', t_string rt)]"

text \<open>
  \<open>applyTransform\<close>: \<open>transforms[name || 'none'] || transforms.none\<close>, called inside
  \<open>try { return fn(v); } catch { return v; }\<close>. The registry is an argument of
  \<open>applyTransformWith\<close> so that the handling of a throwing function can be stated for any
  registry; the properties that the registry object inherits from its prototype (a
  transform named \<open>toString\<close>, say) are not in the node's registry \<open>transforms\<close>.
\<close>

definition transform_fn ::
  "(string \<times> ('n jsval \<Rightarrow> error + 'n jsval)) list \<Rightarrow> string \<Rightarrow> 'n jsval \<Rightarrow> error + 'n jsval" where
  "transform_fn tbl name =
     (case map_of tbl (if name = [] then ''none'' else name) of
        Some f \<Rightarrow> f
      | None \<Rightarrow> (case map_of tbl ''none'' of Some f \<Rightarrow> f | None \<Rightarrow> t_none))"

definition applyTransformWith ::
  "(string \<times> ('n jsval \<Rightarrow> error + 'n jsval)) list \<Rightarrow> 'n jsval \<Rightarrow> string \<Rightarrow> 'n jsval" where
  "applyTransformWith tbl v name =
     (case transform_fn tbl name v of Inl e \<Rightarrow> v | Inr r \<Rightarrow> r)"

definition applyTransform :: "'n js_runtime \<Rightarrow> 'n jsval \<Rightarrow> string \<Rightarrow> 'n jsval" where
  "applyTransform rt v name = applyTransformWith (transforms rt) v name"

section \<open>Chunking\<close>

text \<open>
  \<open>Array.prototype.slice(start, end)\<close> on integer arguments: a negative index counts
  from the end, and both are clamped to the array.
\<close>

definition js_slice :: "'a list \<Rightarrow> int \<Rightarrow> int \<Rightarrow> 'a list" where
  "js_slice arr start fin =
     (let len = int (length arr);
          k = (if start < 0 then max (len + start) 0 else min start len);
          f = (if fin < 0 then max (len + fin) 0 else min fin len)
      in take (nat (f - k)) (drop (nat k) arr))"

text \<open>
  \<open>chunkify\<close>: \<open>for (let i=0; i<arr.length; i+=n) out.push(arr.slice(i,i+n))\<close>. The
  loop does not end when \<open>n \<le> 0\<close> and the array is not empty, so it is a partial
  function: \<open>None\<close> is a loop that never returns.
\<close>

partial_function (option) chunkify_loop ::
  "'a list \<Rightarrow> int \<Rightarrow> int \<Rightarrow> 'a list list \<Rightarrow> 'a list list option" where
  "chunkify_loop arr n i out =
     (if i < int (length arr)
      then chunkify_loop arr n (i + n) (out @ [js_slice arr i (i + n)])
      else Some out)"

declare chunkify_loop.simps [code]

definition chunkify :: "'a list \<Rightarrow> int \<Rightarrow> 'a list list option" where
  "chunkify arr n = chunkify_loop arr n 0 []"

text \<open>
  The chunk selection of the input handler:
  \<open>local.txMode === 'chunk' ? chunkify(mapped, Math.max(1, local.chunkSize)) : [mapped]\<close>,
  for an integer \<open>local.chunkSize\<close>.
\<close>

definition select_chunks :: "string \<Rightarrow> int \<Rightarrow> 'a list \<Rightarrow> 'a list list option" where
  "select_chunks txMode chunkSize mapped =
     (if txMode = ''chunk'' then chunkify mapped (max 1 chunkSize) else Some [mapped])"

text \<open>The reference partition: consecutive blocks of \<open>k\<close> elements.\<close>

function blocks :: "nat \<Rightarrow> 'a list \<Rightarrow> 'a list list" where
  "blocks k xs = (if k = 0 \<or> xs = [] then [] else take k xs # blocks k (drop k xs))"
  by pat_completeness auto
termination
  by (relation "measure (\<lambda>(k, xs). length xs)") auto

section \<open>Configuration\<close>

text \<open>
  The configuration objects of the node. Table, column and key names are JavaScript
  values, since \<open>qid\<close> tests their type; the mode fields are strings that the code only
  compares with literals. An absent string field is the empty string (falsy), an absent
  array field the empty list (the handler replaces a non-array by \<open>[]\<close>), an absent
  object \<open>None\<close>.
\<close>

record 'n lookup =
  l_fromGroup :: string
  l_strict :: bool
  l_valueType :: string
  l_value :: "'n jsval"

record 'n mapping_entry =
  m_col :: "'n jsval"
  m_source :: string
  m_srcType :: string
  m_src :: "'n jsval"
  m_transform :: string
  m_lookup :: "'n lookup option"

record 'n keyspec =
  ks_enabled :: bool
  ks_mode :: string
  ks_columns :: "'n jsval list"
  ks_template :: string
  ks_separator :: string
  ks_selectMissing :: bool
  ks_returnPath :: string
  ks_idColumn :: "'n jsval"

record return_rows =
  rr_mode :: string
  rr_pathType :: string
  rr_path :: string

record 'n group =
  g_table :: "'n jsval"
  g_alias :: string
  g_sourceType :: string
  g_source :: "'n jsval"
  g_autoMap :: bool
  g_mapping :: "'n mapping_entry list"
  g_conflict :: string
  g_upsertKeys :: "'n jsval list"
  g_updateColumns :: "'n jsval list"
  g_keySpec :: "'n keyspec option"
  g_returnRows :: "return_rows option"

record 'n run_config =
  c_txMode :: string
  c_chunkSize :: int
  c_continueOnError :: bool
  c_enableWAL :: bool
  c_syncMode :: string
  c_extraPragmas :: string
  c_groups :: "'n group list"

section \<open>Identifier quoting and the SQL builder\<close>

text \<open>\<open>Array.prototype.map\<close> with a callback that may throw: the first error ends it.\<close>

fun map_err :: "('a \<Rightarrow> error + 'b) \<Rightarrow> 'a list \<Rightarrow> error + 'b list" where
  "map_err f [] = Inr []"
| "map_err f (x # xs) =
     (case f x of
        Inl e \<Rightarrow> Inl e
      | Inr y \<Rightarrow> (case map_err f xs of Inl e \<Rightarrow> Inl e | Inr ys \<Rightarrow> Inr (y # ys)))"

definition dquote :: char where
  "dquote = CHR 0x22"

definition squote :: char where
  "squote = CHR 0x27"

text \<open>
  \<open>qid\<close>: throws \<open>Invalid identifier: ${name}\<close> unless the name is a non-empty string,
  and otherwise doubles every double quote and wraps the name in double quotes.
\<close>

definition qid :: "'n js_runtime \<Rightarrow> 'n jsval \<Rightarrow> error + string" where
  "qid rt name =
     (case name of
        JStr s \<Rightarrow>
          (if s = [] then Inl (ErrInvalidIdentifier [])
           else Inr ([dquote] @ concat (map (\<lambda>c. if c = dquote then [dquote, dquote] else [c]) s)
                     @ [dquote]))
      | _ \<Rightarrow> (case js_String rt name of Inl e \<Rightarrow> Inl e | Inr s \<Rightarrow> Inl (ErrInvalidIdentifier s)))"

definition buildUpsert :: "'n js_runtime \<Rightarrow> 'n jsval list \<Rightarrow> 'n jsval list \<Rightarrow> error + string" where
  "buildUpsert rt keys updateCols =
     (let k = filter (truthy rt) keys in
      if k = [] then Inr []
      else (case map_err (qid rt) k of
              Inl e \<Rightarrow> Inl e
            | Inr qs \<Rightarrow>
                (let qKeys = join_with '', '' qs in
                 if updateCols = [] then Inr ('' ON CONFLICT ('' @ qKeys @ '') DO NOTHING'')
                 else (case map_err (\<lambda>c. case qid rt c of
                                            Inl e \<Rightarrow> Inl e
                                          | Inr q \<Rightarrow> Inr (q @ ''=excluded.'' @ q)) updateCols of
                         Inl e \<Rightarrow> Inl e
                       | Inr sets \<Rightarrow>
                           Inr ('' ON CONFLICT ('' @ qKeys @ '') DO UPDATE SET ''
                                @ join_with '', '' sets)))))"

definition insert_head :: "string \<Rightarrow> string \<Rightarrow> string list \<Rightarrow> string" where
  "insert_head conflict table qcols =
     ''INSERT '' @ (if conflict = ''ignore'' then ''OR IGNORE '' else [])
       @ (if conflict = ''replace'' then ''OR REPLACE '' else [])
       @ ''INTO '' @ table @ '' ('' @ join_with '', '' qcols @ '') VALUES (''
       @ join_with '', '' (map (\<lambda>_. ''?'') qcols) @ '')''"

definition buildInsertSQL :: "'n js_runtime \<Rightarrow> 'n group \<Rightarrow> 'n jsval list \<Rightarrow> error + string" where
  "buildInsertSQL rt g cols =
     (case qid rt (g_table g) of
        Inl e \<Rightarrow> Inl e
      | Inr table \<Rightarrow>
          (case map_err (qid rt) cols of
             Inl e \<Rightarrow> Inl e
           | Inr qcols \<Rightarrow>
               (let head = insert_head (g_conflict g) table qcols in
                if g_conflict g = ''upsert''
                then (case buildUpsert rt (g_upsertKeys g) (g_updateColumns g) of
                        Inl e \<Rightarrow> Inl e
                      | Inr tail \<Rightarrow> Inr (head @ tail))
                else Inr head)))"

text \<open>
  \<open>normKeySpec\<close>: \<open>None\<close> unless the group's KeySpec is enabled; otherwise the KeySpec
  with its defaults, and with \<open>columns\<close> taken from the group's \<open>upsertKeys\<close> when the
  mode is \<open>byColumns\<close> (or absent), no column is configured and the group is an upsert.
  The fields \<open>alias\<close> and \<open>jsonata\<close> of the source's object are never read and are left
  out.
\<close>

definition normKeySpec :: "'n js_runtime \<Rightarrow> 'n group \<Rightarrow> 'n keyspec option" where
  "normKeySpec rt g =
     (case g_keySpec g of
        None \<Rightarrow> None
      | Some ks \<Rightarrow>
          if \<not> ks_enabled ks then None
          else Some (ks\<lparr>
            ks_enabled := True,
            ks_mode := (if ks_mode ks = [] then ''byColumns'' else ks_mode ks),
            ks_columns :=
              (if (ks_mode ks = [] \<or> ks_mode ks = ''byColumns'') \<and> ks_columns ks = []
                   \<and> g_conflict g = ''upsert'' \<and> g_upsertKeys g \<noteq> []
               then g_upsertKeys g else ks_columns ks),
            ks_separator := (if ks_separator ks = [] then ''|'' else ks_separator ks),
            ks_idColumn := (if truthy rt (ks_idColumn ks) then ks_idColumn ks else JStr ''id'')\<rparr>))"

text \<open>
  The handler's normalisation of a group before it is used:
  \<open>g.conflict = g.conflict || 'none'\<close>.
\<close>

definition normGroup :: "'n group \<Rightarrow> 'n group" where
  "normGroup g = g\<lparr>g_conflict := (if g_conflict g = [] then ''none'' else g_conflict g)\<rparr>"

section \<open>Keys of mapped rows\<close>

text \<open>
  A mapped row is an object built by assignments \<open>out[col] = v\<close>: an association list,
  updated in place or extended at the end. A property key is the string form of the
  value used as key.
\<close>

type_synonym 'n row = "(string \<times> 'n jsval) list"

definition row_get :: "'n row \<Rightarrow> string \<Rightarrow> 'n jsval" where
  "row_get r k = (case map_of r k of None \<Rightarrow> JUndefined | Some v \<Rightarrow> v)"

text \<open>\<open>String(v ?? '')\<close>.\<close>

definition str_or_empty :: "'n js_runtime \<Rightarrow> 'n jsval \<Rightarrow> error + string" where
  "str_or_empty rt v = (if nullish v then Inr [] else js_String rt v)"

definition props_key :: "'n js_runtime \<Rightarrow> 'n row \<Rightarrow> 'n jsval list \<Rightarrow> string \<Rightarrow> error + string" where
  "props_key rt r cols S =
     (case map_err (\<lambda>c. case js_String rt c of
                           Inl e \<Rightarrow> Inl e
                         | Inr k \<Rightarrow> str_or_empty rt (row_get r k)) cols of
        Inl e \<Rightarrow> Inl e
      | Inr parts \<Rightarrow> Inr (join_with S parts))"

text \<open>
  \<open>template.replace(/\{\{([^}]+)\}\}/g, (_, k) => String(mapped[k.trim()] ?? ''))\<close>: at
  each position, two opening braces, a longest non-empty run without a closing brace,
  and two closing braces make a placeholder; any other code unit is copied.
\<close>

function tmpl_replace :: "'n js_runtime \<Rightarrow> 'n row \<Rightarrow> string \<Rightarrow> error + string" where
  "tmpl_replace rt r [] = Inr []"
| "tmpl_replace rt r (c # cs) =
     (let name = takeWhile (\<lambda>x. x \<noteq> CHR ''}'') (drop 1 cs);
          rest = dropWhile (\<lambda>x. x \<noteq> CHR ''}'') (drop 1 cs)
      in if c = CHR ''{'' \<and> take 1 cs = ''{'' \<and> name \<noteq> [] \<and> take 2 rest = ''}}''
         then (case str_or_empty rt (row_get r (js_trim rt name)) of
                 Inl e \<Rightarrow> Inl e
               | Inr v \<Rightarrow> (case tmpl_replace rt r (drop 2 rest) of
                             Inl e \<Rightarrow> Inl e
                           | Inr out \<Rightarrow> Inr (v @ out)))
         else (case tmpl_replace rt r cs of Inl e \<Rightarrow> Inl e | Inr out \<Rightarrow> Inr (c # out)))"
  by pat_completeness auto
termination
proof (relation "measure (\<lambda>(rt, r, s). length s)", goal_cases)
  case 1
  show ?case by simp
next
  case (2 rt r c cs name rest v)
  have "length (dropWhile (\<lambda>x. x \<noteq> CHR ''}'') (drop 1 cs)) \<le> length (drop 1 cs)"
    by (rule length_dropWhile_le)
  then show ?case using 2 by simp
next
  case 3
  show ?case by simp
qed

definition keyOfMappedRow :: "'n js_runtime \<Rightarrow> 'n row \<Rightarrow> 'n keyspec \<Rightarrow> error + string" where
  "keyOfMappedRow rt mapped spec =
     (let S = (if ks_separator spec = [] then ''|'' else ks_separator spec) in
      if ks_mode spec = ''byColumns'' \<and> ks_columns spec \<noteq> []
      then props_key rt mapped (ks_columns spec) S
      else if ks_mode spec = ''byTemplate'' \<and> ks_template spec \<noteq> []
      then tmpl_replace rt mapped (ks_template spec)
      else Inr [])"

definition buildKeyConcatExpr :: "'n js_runtime \<Rightarrow> 'n keyspec \<Rightarrow> error + string" where
  "buildKeyConcatExpr rt spec =
     (let S = concat (map (\<lambda>c. if c = squote then [squote, squote] else [c])
                          (if ks_separator spec = [] then ''|'' else ks_separator spec)) in
      case map_err (\<lambda>c. case qid rt c of
                          Inl e \<Rightarrow> Inl e
                        | Inr q \<Rightarrow> Inr (''COALESCE('' @ q @ '','' @ [squote, squote] @ '')''))
                   (ks_columns spec) of
        Inl e \<Rightarrow> Inl e
      | Inr parts \<Rightarrow> Inr (join_with ('' || '' @ [squote] @ S @ [squote] @ '' || '') parts))"

text \<open>
  \<open>composeKeyWithSpec(spec, provided, sep)\<close>, as \<open>resolveLookupId\<close> calls it: \<open>sep\<close> is
  the spec's separator. A string or a number is its own key; for a \<open>byColumns\<close> spec an
  array is joined by the separator and an object is read at the spec's columns.
\<close>

definition composeKeyWithSpec :: "'n js_runtime \<Rightarrow> 'n keyspec option \<Rightarrow> 'n jsval \<Rightarrow> error + string" where
  "composeKeyWithSpec rt spec provided =
     (case spec of
        None \<Rightarrow> (if nullish provided then Inr [] else js_String rt provided)
      | Some sp \<Rightarrow>
          (let S = (if ks_separator sp = [] then ''|'' else ks_separator sp) in
           if ks_mode sp = [] then (if nullish provided then Inr [] else js_String rt provided)
           else (case provided of
                   JStr s \<Rightarrow> Inr s
                 | JNum n \<Rightarrow> Inr (num_to_string rt n)
                 | JArr xs \<Rightarrow>
                     (if ks_mode sp = ''byColumns''
                      then (case map_err (str_or_empty rt) xs of
                              Inl e \<Rightarrow> Inl e
                            | Inr parts \<Rightarrow> Inr (join_with S parts))
                      else str_or_empty rt provided)
                 | JObj fs \<Rightarrow>
                     (if ks_mode sp = ''byColumns'' then props_key rt fs (ks_columns sp) S
                      else str_or_empty rt provided)
                 | JBare fs \<Rightarrow>
                     (if ks_mode sp = ''byColumns'' then props_key rt fs (ks_columns sp) S
                      else str_or_empty rt provided)
                 | _ \<Rightarrow> str_or_empty rt provided)))"

section \<open>Collaborators and run state\<close>

text \<open>
  The SQLite driver, the Node-RED utilities and the contexts are outside the repository.
  They are a record of functions over a state \<open>'w\<close> of the outside world, which every
  call may read and change; \<open>None\<close> or \<open>Inr\<close> is a call that succeeds, an error a
  rejected promise or a throw. \<open>ext_get\<close> stands for the cases of \<open>typedGet\<close> that leave
  the node (type, value, row context), \<open>ext_assign\<close> for \<open>assignTypedPath\<close> (type, path,
  value), \<open>db_all\<close> returns the pairs \<open>(_k, id)\<close> of the selected rows.
\<close>

record ('n, 'w) collab =
  ext_get :: "string \<Rightarrow> 'n jsval \<Rightarrow> 'n jsval \<Rightarrow> 'w \<Rightarrow> (error + 'n jsval) \<times> 'w"
  ext_assign :: "string \<Rightarrow> string \<Rightarrow> 'n jsval \<Rightarrow> 'w \<Rightarrow> error option \<times> 'w"
  db_run :: "string \<Rightarrow> 'w \<Rightarrow> error option \<times> 'w"
  db_prepare :: "string \<Rightarrow> 'w \<Rightarrow> error option \<times> 'w"
  stmt_run :: "string \<Rightarrow> 'n jsval list \<Rightarrow> 'w \<Rightarrow> error option \<times> 'w"
  stmt_finalize :: "string \<Rightarrow> 'w \<Rightarrow> error option \<times> 'w"
  db_all :: "string \<Rightarrow> 'n jsval list \<Rightarrow> 'w \<Rightarrow> (error + ('n jsval \<times> 'n jsval) list) \<times> 'w"

datatype 'n db_call =
    DbOpen string
  | DbRun string
  | DbPrepare string
  | StmtRun string "'n jsval list"
  | StmtFinalize string
  | DbAll string "'n jsval list"
  | DbClose

datatype warning =
    WarnPragma error
  | WarnJsonata error
  | WarnLookupMapMissing string
  | WarnNoColumns string
  | WarnNotByColumns string
  | WarnReturnRowsSkipped string

text \<open>
  What was thrown at the handler for a single row: \<open>mapRow\<close> threw for a source row,
  or the driver rejected the statement run with the parameters of a mapped row.
\<close>

datatype 'n failure =
    MapFailed "'n jsval" error
  | ExecFailed string "'n jsval list" error

record counters =
  inserted :: nat
  updated :: nat
  errors :: nat
  skipped :: nat

record tcounters = counters +
  total :: nat

text \<open>
  The state of one invocation of the input handler: the outside world, the objects
  \<open>totals\<close>, \<open>byTable\<close>, \<open>ctxMaps\<close> and \<open>keySpecs\<close> that the handler creates and mutates,
  and four records of what happened: \<open>trace\<close> lists the calls made on the
  connection, \<open>warnings\<close> the calls of \<open>node.warn\<close>, \<open>failures\<close> the throws of \<open>mapRow\<close>
  and the rejections of \<open>stmt.run\<close>, each recorded where it arises, and \<open>lookups\<close> every
  read of \<open>ctxMaps\<close> by \<open>resolveLookupId\<close>. For the last one, \<open>cur\<close> holds the loop
  variable \<open>gi\<close> and each entry of \<open>ctxMaps\<close> carries the \<open>gi\<close> of the group that stored
  it. Neither \<open>failures\<close> nor these two annotations are ever read by the code that
  computes a result.
\<close>

record ('n, 'w) state =
  world :: 'w
  trace :: "'n db_call list"
  warnings :: "warning list"
  totals :: counters
  byTable :: "(string \<times> tcounters) list"
  ctxMaps :: "(string \<times> nat \<times> (string \<times> 'n jsval) list) list"
  keySpecs :: "(string \<times> 'n keyspec) list"
  cur :: nat
  lookups :: "(nat \<times> string \<times> nat option) list"
  failures :: "'n failure list"

definition warn :: "warning \<Rightarrow> ('n, 'w) state \<Rightarrow> ('n, 'w) state" where
  "warn x s = s\<lparr>warnings := warnings s @ [x]\<rparr>"

definition failed :: "'n failure \<Rightarrow> ('n, 'w) state \<Rightarrow> ('n, 'w) state" where
  "failed f s = s\<lparr>failures := failures s @ [f]\<rparr>"

definition called :: "'n db_call \<Rightarrow> 'w \<Rightarrow> ('n, 'w) state \<Rightarrow> ('n, 'w) state" where
  "called c w s = s\<lparr>world := w, trace := trace s @ [c]\<rparr>"

definition dbRun :: "('n, 'w) collab \<Rightarrow> string \<Rightarrow> ('n, 'w) state \<Rightarrow> error option \<times> ('n, 'w) state" where
  "dbRun cb sql s = (case db_run cb sql (world s) of (r, w) \<Rightarrow> (r, called (DbRun sql) w s))"

definition dbPrepare :: "('n, 'w) collab \<Rightarrow> string \<Rightarrow> ('n, 'w) state \<Rightarrow> error option \<times> ('n, 'w) state" where
  "dbPrepare cb sql s = (case db_prepare cb sql (world s) of (r, w) \<Rightarrow> (r, called (DbPrepare sql) w s))"

definition stmtRun ::
  "('n, 'w) collab \<Rightarrow> string \<Rightarrow> 'n jsval list \<Rightarrow> ('n, 'w) state \<Rightarrow> error option \<times> ('n, 'w) state" where
  "stmtRun cb sql params s =
     (case stmt_run cb sql params (world s) of
        (None, w) \<Rightarrow> (None, called (StmtRun sql params) w s)
      | (Some e, w) \<Rightarrow> (Some e, failed (ExecFailed sql params e) (called (StmtRun sql params) w s)))"

definition dbFinalize :: "('n, 'w) collab \<Rightarrow> string \<Rightarrow> ('n, 'w) state \<Rightarrow> error option \<times> ('n, 'w) state" where
  "dbFinalize cb sql s =
     (case stmt_finalize cb sql (world s) of (r, w) \<Rightarrow> (r, called (StmtFinalize sql) w s))"

definition dbAll ::
  "('n, 'w) collab \<Rightarrow> string \<Rightarrow> 'n jsval list \<Rightarrow> ('n, 'w) state
     \<Rightarrow> (error + ('n jsval \<times> 'n jsval) list) \<times> ('n, 'w) state" where
  "dbAll cb sql params s =
     (case db_all cb sql params (world s) of (r, w) \<Rightarrow> (r, called (DbAll sql params) w s))"

text \<open>
  The transaction manager. \<open>off\<close> does nothing; \<open>rollbackTx\<close> swallows the error of its
  own statement.
\<close>

definition beginTx :: "('n, 'w) collab \<Rightarrow> string \<Rightarrow> ('n, 'w) state \<Rightarrow> error option \<times> ('n, 'w) state" where
  "beginTx cb mode s = (if mode = ''off'' then (None, s) else dbRun cb ''BEGIN'' s)"

definition commitTx :: "('n, 'w) collab \<Rightarrow> string \<Rightarrow> ('n, 'w) state \<Rightarrow> error option \<times> ('n, 'w) state" where
  "commitTx cb mode s = (if mode = ''off'' then (None, s) else dbRun cb ''COMMIT'' s)"

definition rollbackTx :: "('n, 'w) collab \<Rightarrow> string \<Rightarrow> ('n, 'w) state \<Rightarrow> ('n, 'w) state" where
  "rollbackTx cb mode s = (if mode = ''off'' then s else snd (dbRun cb ''ROLLBACK'' s))"

text \<open>
  \<open>typedGet\<close>: \<open>num\<close>, \<open>bool\<close>, \<open>str\<close> and an unknown type are computed in place; \<open>json\<close>
  and \<open>jsonata\<close> turn a failure into \<open>undefined\<close> (the second with a warning); \<open>env\<close>,
  \<open>msg\<close>, \<open>flow\<close> and \<open>global\<close> let a failure through.
\<close>

definition typedGet ::
  "'n js_runtime \<Rightarrow> ('n, 'w) collab \<Rightarrow> string \<Rightarrow> 'n jsval \<Rightarrow> 'n jsval \<Rightarrow> ('n, 'w) state
     \<Rightarrow> (error + 'n jsval) \<times> ('n, 'w) state" where
  "typedGet rt cb ty val rowCtx s =
     (if ty = ''num'' then
        (case js_Number rt val of Inl e \<Rightarrow> (Inl e, s) | Inr n \<Rightarrow> (Inr (JNum n), s))
      else if ty = ''bool'' then (Inr (JBool (truthy rt val)), s)
      else if ty = ''json'' then
        (case ext_get cb ty val rowCtx (world s) of
           (Inl e, w) \<Rightarrow> (Inr JUndefined, s\<lparr>world := w\<rparr>)
         | (Inr v, w) \<Rightarrow> (Inr v, s\<lparr>world := w\<rparr>))
      else if ty = ''jsonata'' then
        (case ext_get cb ty val rowCtx (world s) of
           (Inl e, w) \<Rightarrow> (Inr JUndefined, warn (WarnJsonata e) (s\<lparr>world := w\<rparr>))
         | (Inr v, w) \<Rightarrow> (Inr v, s\<lparr>world := w\<rparr>))
      else if ty = ''env'' \<or> ty = ''msg'' \<or> ty = ''flow'' \<or> ty = ''global'' then
        (case ext_get cb ty val rowCtx (world s) of (r, w) \<Rightarrow> (r, s\<lparr>world := w\<rparr>))
      else (Inr val, s))"

text \<open>\<open>assignTypedPath\<close>: nothing for an empty path, else the sink.\<close>

definition assignTypedPath ::
  "('n, 'w) collab \<Rightarrow> string \<Rightarrow> string \<Rightarrow> 'n jsval \<Rightarrow> ('n, 'w) state \<Rightarrow> error option \<times> ('n, 'w) state" where
  "assignTypedPath cb ty path val s =
     (if path = [] then (None, s)
      else (case ext_assign cb ty path val (world s) of (r, w) \<Rightarrow> (r, s\<lparr>world := w\<rparr>)))"

section \<open>Lookup resolution and the row mapper\<close>

text \<open>
  \<open>resolveLookupId\<close>: without an entry of \<open>ctxMaps\<close> for the alias, a warning and
  \<open>null\<close>; otherwise \<open>ctx.map.get(key) ?? null\<close> for the composed key.
\<close>

definition resolveLookupId ::
  "'n js_runtime \<Rightarrow> string \<Rightarrow> 'n jsval \<Rightarrow> ('n, 'w) state \<Rightarrow> (error + 'n jsval) \<times> ('n, 'w) state" where
  "resolveLookupId rt fromAlias provided s =
     (case map_of (ctxMaps s) fromAlias of
        None \<Rightarrow>
          (Inr JNull, (warn (WarnLookupMapMissing fromAlias) s)
                        \<lparr>lookups := lookups s @ [(cur s, fromAlias, None)]\<rparr>)
      | Some (pub, m) \<Rightarrow>
          (let s' = s\<lparr>lookups := lookups s @ [(cur s, fromAlias, Some pub)]\<rparr> in
           case composeKeyWithSpec rt (map_of (keySpecs s) fromAlias) provided of
             Inl e \<Rightarrow> (Inl e, s')
           | Inr key \<Rightarrow>
               (Inr (case map_of m key of
                       None \<Rightarrow> JNull
                     | Some v \<Rightarrow> if nullish v then JNull else v), s')))"

text \<open>\<open>typeof val === 'object' ? JSON.stringify(val) : String(val)\<close>.\<close>

fun keyShow :: "'n js_runtime \<Rightarrow> 'n jsval \<Rightarrow> string" where
  "keyShow rt JUndefined = ''undefined''"
| "keyShow rt (JBool b) = (if b then ''true'' else ''false'')"
| "keyShow rt (JNum n) = num_to_string rt n"
| "keyShow rt (JStr s) = s"
| "keyShow rt v = json_stringify rt v"


text \<open>
  The loop of \<open>mapRow\<close> over \<open>group.mapping\<close>, with the row \<open>out\<close> built so far. An entry
  without a column is skipped. A lookup entry resolves its value and then the ID, and
  throws when the ID is \<open>null\<close> and the entry is strict; a value entry applies the
  transform.
\<close>

fun mapEntries ::
  "'n js_runtime \<Rightarrow> ('n, 'w) collab \<Rightarrow> 'n mapping_entry list \<Rightarrow> 'n jsval \<Rightarrow> 'n row
     \<Rightarrow> ('n, 'w) state \<Rightarrow> (error + 'n row) \<times> ('n, 'w) state" where
  "mapEntries rt cb [] srcRow out s = (Inr out, s)"
| "mapEntries rt cb (m # ms) srcRow out s =
     (if \<not> truthy rt (m_col m) then mapEntries rt cb ms srcRow out s
      else if m_source m = ''lookup'' then
        (let fromGroup = (case m_lookup m of None \<Rightarrow> [] | Some l \<Rightarrow> l_fromGroup l);
             strict = (case m_lookup m of None \<Rightarrow> False | Some l \<Rightarrow> l_strict l);
             vtype = (case m_lookup m of
                        None \<Rightarrow> ''str''
                      | Some l \<Rightarrow> if l_valueType l = [] then ''str'' else l_valueType l);
             value = (case m_lookup m of None \<Rightarrow> JUndefined | Some l \<Rightarrow> l_value l)
         in case typedGet rt cb vtype value srcRow s of
              (Inl e, s1) \<Rightarrow> (Inl e, s1)
            | (Inr val, s1) \<Rightarrow>
                (case resolveLookupId rt fromGroup val s1 of
                   (Inl e, s2) \<Rightarrow> (Inl e, s2)
                 | (Inr ident, s2) \<Rightarrow>
                     if nullish ident \<and> strict
                     then (Inl (ErrLookupFailed fromGroup (keyShow rt val)), s2)
                     else (case js_String rt (m_col m) of
                             Inl e \<Rightarrow> (Inl e, s2)
                           | Inr k \<Rightarrow>
                               mapEntries rt cb ms srcRow
                                 (AList.update k (if nullish ident then JNull else ident) out) s2)))
      else
        (case typedGet rt cb (if m_srcType m = [] then ''str'' else m_srcType m) (m_src m) srcRow s of
           (Inl e, s1) \<Rightarrow> (Inl e, s1)
         | (Inr raw, s1) \<Rightarrow>
             (case js_String rt (m_col m) of
                Inl e \<Rightarrow> (Inl e, s1)
              | Inr k \<Rightarrow>
                  mapEntries rt cb ms srcRow
                    (AList.update k (applyTransform rt raw (m_transform m)) out) s1)))"

text \<open>The copy of the own properties of a source row made under \<open>autoMap\<close>.\<close>

definition copy_props :: "'n row \<Rightarrow> 'n row" where
  "copy_props fs = foldl (\<lambda>out k. AList.update k (row_get fs k) out) [] (map fst fs)"

text \<open>\<open>mapRow\<close>; a throw of the mapping loop is recorded on its way out.\<close>

definition mapRow ::
  "'n js_runtime \<Rightarrow> ('n, 'w) collab \<Rightarrow> 'n group \<Rightarrow> 'n jsval \<Rightarrow> ('n, 'w) state
     \<Rightarrow> (error + 'n row) \<times> ('n, 'w) state" where
  "mapRow rt cb g srcRow s =
     (if g_autoMap g then
        (case srcRow of
           JObj fs \<Rightarrow> (Inr (copy_props fs), s)
         | JBare fs \<Rightarrow> (Inr (copy_props fs), s)
         | _ \<Rightarrow> (Inr [], s))
      else (case mapEntries rt cb (g_mapping g) srcRow [] s of
              (Inl e, s1) \<Rightarrow> (Inl e, failed (MapFailed srcRow e) s1)
            | (Inr out, s1) \<Rightarrow> (Inr out, s1)))"


section \<open>The input handler\<close>

definition zero_counters :: counters where
  "zero_counters = \<lparr>inserted = 0, updated = 0, errors = 0, skipped = 0\<rparr>"

definition zero_tcounters :: tcounters where
  "zero_tcounters = \<lparr>inserted = 0, updated = 0, errors = 0, skipped = 0, total = 0\<rparr>"

text \<open>\<open>per\<close> is the object \<open>byTable[tableName]\<close>, shared by the groups of one table.\<close>

definition per :: "string \<Rightarrow> ('n, 'w) state \<Rightarrow> tcounters" where
  "per tkey s = (case map_of (byTable s) tkey of None \<Rightarrow> zero_tcounters | Some p \<Rightarrow> p)"

text \<open>\<open>per.errors++; totals.errors++\<close>.\<close>

definition count_error :: "string \<Rightarrow> ('n, 'w) state \<Rightarrow> ('n, 'w) state" where
  "count_error tkey s =
     s\<lparr>byTable := AList.update tkey ((per tkey s)\<lparr>errors := errors (per tkey s) + 1\<rparr>) (byTable s),
       totals := (totals s)\<lparr>errors := errors (totals s) + 1\<rparr>\<rparr>"

text \<open>
  The count of a row that was executed: \<open>updated\<close> for \<open>replace\<close> and \<open>upsert\<close>,
  \<open>inserted\<close> otherwise.
\<close>

definition count_success :: "string \<Rightarrow> string \<Rightarrow> ('n, 'w) state \<Rightarrow> ('n, 'w) state" where
  "count_success conflict tkey s =
     (if conflict = ''replace'' \<or> conflict = ''upsert''
      then s\<lparr>byTable := AList.update tkey ((per tkey s)\<lparr>updated := updated (per tkey s) + 1\<rparr>) (byTable s),
             totals := (totals s)\<lparr>updated := updated (totals s) + 1\<rparr>\<rparr>
      else s\<lparr>byTable := AList.update tkey ((per tkey s)\<lparr>inserted := inserted (per tkey s) + 1\<rparr>) (byTable s),
             totals := (totals s)\<lparr>inserted := inserted (totals s) + 1\<rparr>\<rparr>)"

text \<open>
  The mapping loop: a row whose mapping throws is counted, and the error is thrown
  again unless \<open>continueOnError\<close> is set.
\<close>

fun mapRows ::
  "'n js_runtime \<Rightarrow> ('n, 'w) collab \<Rightarrow> bool \<Rightarrow> 'n group \<Rightarrow> string \<Rightarrow> 'n jsval list \<Rightarrow> 'n row list
     \<Rightarrow> ('n, 'w) state \<Rightarrow> (error + 'n row list) \<times> ('n, 'w) state" where
  "mapRows rt cb coe g tkey [] mapped s = (Inr mapped, s)"
| "mapRows rt cb coe g tkey (r # rs) mapped s =
     (case mapRow rt cb g r s of
        (Inr m, s1) \<Rightarrow> mapRows rt cb coe g tkey rs (mapped @ [m]) s1
      | (Inl e, s1) \<Rightarrow>
          (let s2 = count_error tkey s1 in
           if \<not> coe then (Inl e, s2) else mapRows rt cb coe g tkey rs mapped s2))"

text \<open>\<open>cols.map(c => r[c] === undefined ? null : r[c])\<close>.\<close>

definition param_of :: "'n js_runtime \<Rightarrow> 'n row \<Rightarrow> 'n jsval \<Rightarrow> 'n jsval" where
  "param_of rt r c =
     (case js_String rt c of
        Inl e \<Rightarrow> JNull
      | Inr k \<Rightarrow> (case row_get r k of JUndefined \<Rightarrow> JNull | v \<Rightarrow> v))"

text \<open>The rows of one chunk, run on the prepared statement.\<close>

fun runRows ::
  "'n js_runtime \<Rightarrow> ('n, 'w) collab \<Rightarrow> bool \<Rightarrow> 'n group \<Rightarrow> string \<Rightarrow> string \<Rightarrow> 'n jsval list
     \<Rightarrow> 'n row list \<Rightarrow> ('n, 'w) state \<Rightarrow> error option \<times> ('n, 'w) state" where
  "runRows rt cb coe g tkey sql cols [] s = (None, s)"
| "runRows rt cb coe g tkey sql cols (r # rs) s =
     (case stmtRun cb sql (map (param_of rt r) cols) s of
        (None, s1) \<Rightarrow> runRows rt cb coe g tkey sql cols rs (count_success (g_conflict g) tkey s1)
      | (Some e, s1) \<Rightarrow>
          (let s2 = count_error tkey s1 in
           if \<not> coe then (Some e, s2) else runRows rt cb coe g tkey sql cols rs s2))"

text \<open>
  The body of the \<open>try\<close> of one chunk: build the statement, prepare it, run the rows,
  finalize, commit.
\<close>

definition chunkBody ::
  "'n js_runtime \<Rightarrow> ('n, 'w) collab \<Rightarrow> bool \<Rightarrow> string \<Rightarrow> 'n group \<Rightarrow> string \<Rightarrow> 'n jsval list
     \<Rightarrow> 'n row list \<Rightarrow> ('n, 'w) state \<Rightarrow> error option \<times> ('n, 'w) state" where
  "chunkBody rt cb coe txm g tkey cols ch s =
     (case buildInsertSQL rt g cols of
        Inl e \<Rightarrow> (Some e, s)
      | Inr sql \<Rightarrow>
          (case dbPrepare cb sql s of
             (Some e, s1) \<Rightarrow> (Some e, s1)
           | (None, s1) \<Rightarrow>
               (case runRows rt cb coe g tkey sql cols ch s1 of
                  (Some e, s2) \<Rightarrow> (Some e, s2)
                | (None, s2) \<Rightarrow>
                    (case dbFinalize cb sql s2 of
                       (Some e, s3) \<Rightarrow> (Some e, s3)
                     | (None, s3) \<Rightarrow> commitTx cb txm s3))))"

text \<open>
  One chunk: \<open>beginTx\<close> stands before the \<open>try\<close>, so its error always leaves the loop;
  an error of the body is followed by \<open>rollbackTx\<close> and thrown again unless
  \<open>continueOnError\<close> is set.
\<close>

definition execChunk ::
  "'n js_runtime \<Rightarrow> ('n, 'w) collab \<Rightarrow> bool \<Rightarrow> string \<Rightarrow> 'n group \<Rightarrow> string \<Rightarrow> 'n jsval list
     \<Rightarrow> 'n row list \<Rightarrow> ('n, 'w) state \<Rightarrow> error option \<times> ('n, 'w) state" where
  "execChunk rt cb coe txm g tkey cols ch s =
     (case beginTx cb txm s of
        (Some e, s1) \<Rightarrow> (Some e, s1)
      | (None, s1) \<Rightarrow>
          (case chunkBody rt cb coe txm g tkey cols ch s1 of
             (None, s2) \<Rightarrow> (None, s2)
           | (Some e, s2) \<Rightarrow>
               (let s3 = rollbackTx cb txm s2 in
                if \<not> coe then (Some e, s3) else (None, s3))))"

fun execChunks ::
  "'n js_runtime \<Rightarrow> ('n, 'w) collab \<Rightarrow> bool \<Rightarrow> string \<Rightarrow> 'n group \<Rightarrow> string \<Rightarrow> 'n jsval list
     \<Rightarrow> 'n row list list \<Rightarrow> ('n, 'w) state \<Rightarrow> error option \<times> ('n, 'w) state" where
  "execChunks rt cb coe txm g tkey cols [] s = (None, s)"
| "execChunks rt cb coe txm g tkey cols (ch # chs) s =
     (case execChunk rt cb coe txm g tkey cols ch s of
        (Some e, s1) \<Rightarrow> (Some e, s1)
      | (None, s1) \<Rightarrow> execChunks rt cb coe txm g tkey cols chs s1)"

text \<open>\<open>Array.from(new Set(arr))\<close>: the first occurrence of each element, in order.\<close>

fun uniq :: "'a list \<Rightarrow> 'a list" where
  "uniq [] = []"
| "uniq (x # xs) = x # filter (\<lambda>y. y \<noteq> x) (uniq xs)"

text \<open>\<open>for (const r of rows) out.set(String(r._k), r.id)\<close>.\<close>

fun set_rows ::
  "'n js_runtime \<Rightarrow> ('n jsval \<times> 'n jsval) list \<Rightarrow> (string \<times> 'n jsval) list
     \<Rightarrow> error + (string \<times> 'n jsval) list" where
  "set_rows rt [] out = Inr out"
| "set_rows rt (r # rs) out =
     (case js_String rt (fst r) of
        Inl e \<Rightarrow> Inl e
      | Inr k \<Rightarrow> set_rows rt rs (AList.update k (snd r) out))"

fun selectChunks ::
  "'n js_runtime \<Rightarrow> ('n, 'w) collab \<Rightarrow> string \<Rightarrow> string \<Rightarrow> string \<Rightarrow> string list list
     \<Rightarrow> (string \<times> 'n jsval) list \<Rightarrow> ('n, 'w) state
     \<Rightarrow> (error + (string \<times> 'n jsval) list) \<times> ('n, 'w) state" where
  "selectChunks rt cb idCol expr table [] out s = (Inr out, s)"
| "selectChunks rt cb idCol expr table (ch # chs) out s =
     (let sql = ''SELECT '' @ idCol @ '' AS id, ('' @ expr @ '') AS _k FROM '' @ table
                @ '' WHERE ('' @ expr @ '') IN ('' @ join_with '', '' (map (\<lambda>_. ''?'') ch) @ '')''
      in case dbAll cb sql (map JStr ch) s of
           (Inl e, s1) \<Rightarrow> (Inl e, s1)
         | (Inr rows, s1) \<Rightarrow>
             (case set_rows rt rows out of
                Inl e \<Rightarrow> (Inl e, s1)
              | Inr out' \<Rightarrow> selectChunks rt cb idCol expr table chs out' s1))"

text \<open>\<open>selectIdsByKeys\<close>, with its default chunk size of 500.\<close>

definition selectIdsByKeys ::
  "'n js_runtime \<Rightarrow> ('n, 'w) collab \<Rightarrow> 'n group \<Rightarrow> 'n keyspec \<Rightarrow> string list \<Rightarrow> ('n, 'w) state
     \<Rightarrow> (error + (string \<times> 'n jsval) list) \<times> ('n, 'w) state" where
  "selectIdsByKeys rt cb g spec keys s =
     (if keys = [] then (Inr [], s)
      else if ks_mode spec \<noteq> ''byColumns'' \<or> ks_columns spec = [] then (Inr [], s)
      else (case qid rt (if truthy rt (ks_idColumn spec) then ks_idColumn spec else JStr ''id'') of
              Inl e \<Rightarrow> (Inl e, s)
            | Inr idCol \<Rightarrow>
                (case buildKeyConcatExpr rt spec of
                   Inl e \<Rightarrow> (Inl e, s)
                 | Inr expr \<Rightarrow>
                     (case qid rt (g_table g) of
                        Inl e \<Rightarrow> (Inl e, s)
                      | Inr table \<Rightarrow>
                          (case chunkify (uniq keys) 500 of
                             None \<Rightarrow> (Inl NoReturn, s)
                           | Some chunks \<Rightarrow> selectChunks rt cb idCol expr table chunks [] s)))))"

text \<open>
  The key-map step of a group whose KeySpec \<open>ks\<close> is enabled: derive the keys of the
  mapped rows, build the map by a SELECT for a \<open>byColumns\<close> KeySpec with columns and warn
  otherwise, store \<open>ctxMaps[alias] = { map }\<close>, and write the map to the return path.
  The normalised KeySpec has no \<open>returnPathType\<close>, so the type is always \<open>flow\<close>.
\<close>

definition publishKeyMap ::
  "'n js_runtime \<Rightarrow> ('n, 'w) collab \<Rightarrow> 'n group \<Rightarrow> 'n keyspec \<Rightarrow> string \<Rightarrow> 'n row list
     \<Rightarrow> ('n, 'w) state \<Rightarrow> error option \<times> ('n, 'w) state" where
  "publishKeyMap rt cb g ks alias mapped s =
     (case (if (ks_mode ks = ''byColumns'' \<and> ks_columns ks \<noteq> [])
               \<or> (ks_mode ks = ''byTemplate'' \<and> ks_template ks \<noteq> [])
            then map_err (\<lambda>r. keyOfMappedRow rt r ks) mapped else Inr []) of
        Inl e \<Rightarrow> (Some e, s)
      | Inr keys \<Rightarrow>
          (case (if ks_mode ks = ''byColumns'' \<and> ks_columns ks \<noteq> []
                 then selectIdsByKeys rt cb g ks keys s
                 else (Inr [], warn (WarnNotByColumns alias) s)) of
             (Inl e, s1) \<Rightarrow> (Some e, s1)
           | (Inr m, s1) \<Rightarrow>
               (let s2 = s1\<lparr>ctxMaps := AList.update alias (cur s1, m) (ctxMaps s1)\<rparr> in
                if ks_returnPath ks \<noteq> []
                then assignTypedPath cb ''flow'' (ks_returnPath ks) (JObj m) s2
                else (None, s2))))"

text \<open>The return-rows step.\<close>

definition out_row :: "(string \<times> 'n jsval) list \<Rightarrow> string \<Rightarrow> 'n row \<Rightarrow> 'n jsval" where
  "out_row m k r =
     JObj [(''action'', JStr ''affected''),
           (''id'', (case map_of m k of None \<Rightarrow> JUndefined | Some v \<Rightarrow> v)),
           (''data'', JObj r)]"

definition projectReturnRows ::
  "'n js_runtime \<Rightarrow> ('n, 'w) collab \<Rightarrow> 'n group \<Rightarrow> string \<Rightarrow> 'n row list
     \<Rightarrow> ('n, 'w) state \<Rightarrow> error option \<times> ('n, 'w) state" where
  "projectReturnRows rt cb g alias mapped s =
     (case g_returnRows g of
        None \<Rightarrow> (None, s)
      | Some rr \<Rightarrow>
          if rr_mode rr = [] \<or> rr_mode rr = ''none'' then (None, s)
          else (case map_of (keySpecs s) alias of
                  None \<Rightarrow> (None, warn (WarnReturnRowsSkipped alias) s)
                | Some ks2 \<Rightarrow>
                    if ks_mode ks2 = ''byColumns'' \<and> ks_columns ks2 \<noteq> []
                    then (case map_err (\<lambda>r. keyOfMappedRow rt r ks2) mapped of
                            Inl e \<Rightarrow> (Some e, s)
                          | Inr keys \<Rightarrow>
                              (case selectIdsByKeys rt cb g ks2 keys s of
                                 (Inl e, s1) \<Rightarrow> (Some e, s1)
                               | (Inr m, s1) \<Rightarrow>
                                   assignTypedPath cb
                                     (if rr_pathType rr = [] then ''msg'' else rr_pathType rr)
                                     (if rr_path rr = [] then ''sqlite.'' @ alias @ ''.rows''
                                      else rr_path rr)
                                     (JArr (map (\<lambda>(k, r). out_row m k r) (zip keys mapped))) s1))
                    else (None, warn (WarnReturnRowsSkipped alias) s)))"

text \<open>The effective configuration \<open>local\<close> of the handler.\<close>

definition local_txMode :: "'n run_config \<Rightarrow> string" where
  "local_txMode cfg = (if c_txMode cfg = [] then ''perTable'' else c_txMode cfg)"

definition local_chunkSize :: "'n run_config \<Rightarrow> int" where
  "local_chunkSize cfg = (if c_chunkSize cfg = 0 then 500 else c_chunkSize cfg)"

text \<open>
  The insert of a group that has mapped rows and columns: the transaction mode of the
  chunks is \<open>off\<close> under \<open>all\<close>, and the chunks are those of \<open>select_chunks\<close>.
\<close>

definition execGroup ::
  "'n js_runtime \<Rightarrow> ('n, 'w) collab \<Rightarrow> 'n run_config \<Rightarrow> 'n group \<Rightarrow> string \<Rightarrow> 'n jsval list
     \<Rightarrow> 'n row list \<Rightarrow> ('n, 'w) state \<Rightarrow> error option \<times> ('n, 'w) state" where
  "execGroup rt cb cfg g tkey cols mapped s =
     (let txm = (if local_txMode cfg = ''all'' then ''off'' else local_txMode cfg) in
      case select_chunks (local_txMode cfg) (local_chunkSize cfg) mapped of
        None \<Rightarrow> (Some NoReturn, s)
      | Some chunks \<Rightarrow> execChunks rt cb (c_continueOnError cfg) txm g tkey cols chunks s)"

text \<open>
  What follows the mapping loop of a group: nothing but an empty map under
  \<open>selectMissing\<close> when no row was mapped, a warning when there is no column, and
  otherwise the insert, the key-map step and the return-rows step.
\<close>

definition afterMapping ::
  "'n js_runtime \<Rightarrow> ('n, 'w) collab \<Rightarrow> 'n run_config \<Rightarrow> 'n group \<Rightarrow> string \<Rightarrow> string
     \<Rightarrow> 'n keyspec option \<Rightarrow> 'n row list \<Rightarrow> ('n, 'w) state \<Rightarrow> error option \<times> ('n, 'w) state" where
  "afterMapping rt cb cfg g tkey alias ks mapped s =
     (if mapped = [] then
        (case ks of
           None \<Rightarrow> (None, s)
         | Some k \<Rightarrow>
             if ks_selectMissing k
             then (None, s\<lparr>ctxMaps := AList.update alias (cur s, []) (ctxMaps s)\<rparr>)
             else (None, s))
      else
        (let cols = (if g_autoMap g then map JStr (map fst (hd mapped))
                     else filter (truthy rt) (map m_col (g_mapping g))) in
         if cols = [] then (None, warn (WarnNoColumns alias) s)
         else (case execGroup rt cb cfg g tkey cols mapped s of
                 (Some e, s1) \<Rightarrow> (Some e, s1)
               | (None, s1) \<Rightarrow>
                   (case (case ks of
                            None \<Rightarrow> (None, s1)
                          | Some k \<Rightarrow> publishKeyMap rt cb g k alias mapped s1) of
                      (Some e, s2) \<Rightarrow> (Some e, s2)
                    | (None, s2) \<Rightarrow> projectReturnRows rt cb g alias mapped s2))))"

text \<open>
  One turn of the loop over the groups, for the group at index \<open>gi\<close>: a group without
  a table is skipped; the source rows are resolved (anything but an array is no row),
  the table's counters are created, the KeySpec is stored in \<open>keySpecs\<close>, the rows are
  mapped, and \<open>afterMapping\<close> does the rest.
\<close>

definition processGroup ::
  "'n js_runtime \<Rightarrow> ('n, 'w) collab \<Rightarrow> 'n run_config \<Rightarrow> nat \<Rightarrow> 'n group
     \<Rightarrow> ('n, 'w) state \<Rightarrow> error option \<times> ('n, 'w) state" where
  "processGroup rt cb cfg gi g0 s0 =
     (if \<not> truthy rt (g_table g0) then (None, s0)
      else
        (let g = normGroup g0; s = s0\<lparr>cur := gi\<rparr> in
         case typedGet rt cb (if g_sourceType g = [] then ''msg'' else g_sourceType g)
                (g_source g) JNull s of
           (Inl e, s1) \<Rightarrow> (Some e, s1)
         | (Inr sourceArr, s1) \<Rightarrow>
             (let rowsIn = (case sourceArr of JArr xs \<Rightarrow> xs | _ \<Rightarrow> []) in
              case js_String rt (g_table g) of
                Inl e \<Rightarrow> (Some e, s1)
              | Inr tkey \<Rightarrow>
                  (let alias = (if g_alias g \<noteq> [] then g_alias g else tkey);
                       p = per tkey s1;
                       s2 = s1\<lparr>byTable :=
                              AList.update tkey (p\<lparr>total := total p + length rowsIn\<rparr>) (byTable s1)\<rparr>;
                       ks = normKeySpec rt g;
                       s3 = (case ks of
                               None \<Rightarrow> s2
                             | Some k \<Rightarrow> s2\<lparr>keySpecs := AList.update alias k (keySpecs s2)\<rparr>)
                   in case mapRows rt cb (c_continueOnError cfg) g tkey rowsIn [] s3 of
                        (Inl e, s4) \<Rightarrow> (Some e, s4)
                      | (Inr mapped, s4) \<Rightarrow> afterMapping rt cb cfg g tkey alias ks mapped s4))))"

fun processGroups ::
  "'n js_runtime \<Rightarrow> ('n, 'w) collab \<Rightarrow> 'n run_config \<Rightarrow> nat \<Rightarrow> 'n group list
     \<Rightarrow> ('n, 'w) state \<Rightarrow> error option \<times> ('n, 'w) state" where
  "processGroups rt cb cfg gi [] s = (None, s)"
| "processGroups rt cb cfg gi (g # gs) s =
     (case processGroup rt cb cfg gi g s of
        (Some e, s1) \<Rightarrow> (Some e, s1)
      | (None, s1) \<Rightarrow> processGroups rt cb cfg (Suc gi) gs s1)"

text \<open>\<open>String.prototype.split(';')\<close>.\<close>

fun split_on :: "char \<Rightarrow> string \<Rightarrow> string list" where
  "split_on d [] = [[]]"
| "split_on d (c # cs) =
     (if c = d then [] # split_on d cs
      else (case split_on d cs of [] \<Rightarrow> [[c]] | p # ps \<Rightarrow> (c # p) # ps))"

text \<open>The PRAGMA statements of the configuration, in the order in which they are run.\<close>

definition pragma_statements :: "'n js_runtime \<Rightarrow> 'n run_config \<Rightarrow> string list" where
  "pragma_statements rt cfg =
     (if c_enableWAL cfg then [''PRAGMA journal_mode=WAL;''] else [])
     @ (if c_syncMode cfg \<noteq> [] then [''PRAGMA synchronous='' @ c_syncMode cfg @ '';''] else [])
     @ (if js_trim rt (c_extraPragmas cfg) \<noteq> []
        then map (\<lambda>p. ''PRAGMA '' @ p @ '';'')
               (filter (\<lambda>p. p \<noteq> []) (map (js_trim rt) (split_on (CHR '';'') (c_extraPragmas cfg))))
        else [])"

text \<open>The \<open>try\<close> around the PRAGMA statements: the first failure ends them with a warning.\<close>

fun runPragmas :: "('n, 'w) collab \<Rightarrow> string list \<Rightarrow> ('n, 'w) state \<Rightarrow> ('n, 'w) state" where
  "runPragmas cb [] s = s"
| "runPragmas cb (p # ps) s =
     (case dbRun cb p s of
        (Some e, s1) \<Rightarrow> warn (WarnPragma e) s1
      | (None, s1) \<Rightarrow> runPragmas cb ps s1)"

record summary =
  ok :: bool
  counts :: counters
  tables :: "(string \<times> tcounters) list"

datatype outcome = Sent summary | Failed error

definition init_state :: "'w \<Rightarrow> ('n, 'w) state" where
  "init_state w =
     \<lparr>world = w, trace = [], warnings = [], totals = zero_counters, byTable = [],
      ctxMaps = [], keySpecs = [], cur = 0, lookups = [], failures = []\<rparr>"

text \<open>
  The input handler for one message, from the world \<open>w\<close> in which it starts: the
  outcome is the summary that is sent, or the error given to \<open>done\<close>. The connection is
  closed on the first path only. The timings of the summary are left out.
\<close>

definition run ::
  "'n js_runtime \<Rightarrow> ('n, 'w) collab \<Rightarrow> string \<Rightarrow> 'n jsval \<Rightarrow> 'n run_config \<Rightarrow> 'w
     \<Rightarrow> outcome \<times> ('n, 'w) state" where
  "run rt cb dbPathType dbPath cfg w =
     (case typedGet rt cb (if dbPathType = [] then ''str'' else dbPathType) dbPath JNull (init_state w) of
        (Inl e, s0) \<Rightarrow> (Failed e, s0)
      | (Inr p, s0) \<Rightarrow>
          (case p of
             JStr path \<Rightarrow>
               (if path = [] then (Failed ErrInvalidDbPath, s0)
                else
                  (let s1 = runPragmas cb (pragma_statements rt cfg)
                              (called (DbOpen path) (world s0) s0) in
                   case (if local_txMode cfg = ''all'' then beginTx cb ''all'' s1 else (None, s1)) of
                     (Some e, s2) \<Rightarrow> (Failed e, s2)
                   | (None, s2) \<Rightarrow>
                       (case processGroups rt cb cfg 0 (c_groups cfg) s2 of
                          (Some e, s3) \<Rightarrow> (Failed e, s3)
                        | (None, s3) \<Rightarrow>
                            (Sent \<lparr>ok = (errors (totals s3) = 0), counts = totals s3,
                                   tables = byTable s3\<rparr>,
                             called DbClose (world s3) s3))))
           | _ \<Rightarrow> (Failed ErrInvalidDbPath, s0)))"

section \<open>A runtime and collaborators for evaluation\<close>

text \<open>
  To evaluate the handler on concrete inputs, the primitives are instantiated: numbers
  are the integers with \<open>NaN\<close> and one infinity, printed and parsed in decimal; white
  space is the white space of Latin-1; case conversion acts on the ASCII letters.
\<close>

datatype xnum = Fin int | NaN | Infinity

function dec_digits :: "nat \<Rightarrow> string" where
  "dec_digits n =
     (if n < 10 then [char_of (48 + n)] else dec_digits (n div 10) @ [char_of (48 + n mod 10)])"
  by pat_completeness auto
termination
  by (relation "measure id") auto

fun xnum_to_string :: "xnum \<Rightarrow> string" where
  "xnum_to_string (Fin i) = (if i < 0 then ''-'' @ dec_digits (nat (- i)) else dec_digits (nat i))"
| "xnum_to_string NaN = ''NaN''"
| "xnum_to_string Infinity = ''Infinity''"

definition is_digit :: "char \<Rightarrow> bool" where
  "is_digit c = (48 \<le> (of_char c :: nat) \<and> (of_char c :: nat) \<le> 57)"

definition x_ws :: "char \<Rightarrow> bool" where
  "x_ws c = ((of_char c :: nat) \<in> {9, 10, 11, 12, 13, 32, 160})"

definition dec_value :: "string \<Rightarrow> nat" where
  "dec_value s = foldl (\<lambda>a c. 10 * a + ((of_char c :: nat) - 48)) 0 s"

definition xnum_of_string :: "string \<Rightarrow> xnum" where
  "xnum_of_string s0 =
     (let s = rev (dropWhile x_ws (rev (dropWhile x_ws s0))) in
      if s = [] then Fin 0
      else if s = ''Infinity'' then Infinity
      else if list_all is_digit s then Fin (int (dec_value s))
      else if hd s = CHR ''-'' \<and> tl s \<noteq> [] \<and> list_all is_digit (tl s)
      then Fin (- int (dec_value (tl s)))
      else NaN)"

definition ascii_upper :: "char \<Rightarrow> char" where
  "ascii_upper c =
     (if 97 \<le> (of_char c :: nat) \<and> (of_char c :: nat) \<le> 122 then char_of ((of_char c :: nat) - 32) else c)"

definition ascii_lower :: "char \<Rightarrow> char" where
  "ascii_lower c =
     (if 65 \<le> (of_char c :: nat) \<and> (of_char c :: nat) \<le> 90 then char_of ((of_char c :: nat) + 32) else c)"

fun x_json :: "xnum jsval \<Rightarrow> string"
  and x_json_list :: "xnum jsval list \<Rightarrow> string list"
  and x_json_props :: "(string \<times> xnum jsval) list \<Rightarrow> string list" where
  "x_json JNull = ''null''"
| "x_json JUndefined = ''undefined''"
| "x_json (JBool b) = (if b then ''true'' else ''false'')"
| "x_json (JNum n) = (case n of Fin i \<Rightarrow> xnum_to_string n | _ \<Rightarrow> ''null'')"
| "x_json (JStr s) = [dquote] @ s @ [dquote]"
| "x_json (JArr xs) = ''['' @ join_with '','' (x_json_list xs) @ '']''"
| "x_json (JObj fs) = ''{'' @ join_with '','' (x_json_props fs) @ ''}''"
| "x_json (JBare fs) = ''{'' @ join_with '','' (x_json_props fs) @ ''}''"
| "x_json_list [] = []"
| "x_json_list (x # xs) = (case x of JUndefined \<Rightarrow> ''null'' | _ \<Rightarrow> x_json x) # x_json_list xs"
| "x_json_props [] = []"
| "x_json_props (p # ps) =
     (case snd p of
        JUndefined \<Rightarrow> x_json_props ps
      | v \<Rightarrow> ([dquote] @ fst p @ [dquote] @ '':'' @ x_json v) # x_json_props ps)"

definition x_rt :: "xnum js_runtime" where
  "x_rt = \<lparr>num_to_string = xnum_to_string, str_to_number = xnum_of_string,
           is_finite = (\<lambda>n. case n of Fin i \<Rightarrow> True | _ \<Rightarrow> False),
           num_falsy = (\<lambda>n. case n of Fin i \<Rightarrow> i = 0 | NaN \<Rightarrow> True | Infinity \<Rightarrow> False),
           num_zero = Fin 0, num_one = Fin 1, num_nan = NaN, is_ws = x_ws,
           to_upper = map ascii_upper, to_lower = map ascii_lower, json_stringify = x_json\<rparr>"

text \<open>
  The outside world of an evaluation is the message, as a list of properties. \<open>msg\<close>
  reads a property of the message and \<open>jsonata\<close> one of the row at hand; the sinks
  write a property; every statement succeeds, except that a statement run with the
  string \<open>bad\<close> among its parameters fails; a SELECT gives each key the ID that is its
  position in the list of keys.
\<close>

definition x_get ::
  "string \<Rightarrow> xnum jsval \<Rightarrow> xnum jsval \<Rightarrow> (string \<times> xnum jsval) list
     \<Rightarrow> (error + xnum jsval) \<times> (string \<times> xnum jsval) list" where
  "x_get ty val rowCtx w =
     (case val of
        JStr p \<Rightarrow>
          (if ty = ''jsonata''
           then (case rowCtx of
                   JObj fs \<Rightarrow> (Inr (row_get fs p), w)
                 | _ \<Rightarrow> (Inr JUndefined, w))
           else (Inr (row_get w p), w))
      | _ \<Rightarrow> (Inl (ErrExternal ''bad selector''), w))"

definition x_collab :: "(xnum, (string \<times> xnum jsval) list) collab" where
  "x_collab =
     \<lparr>ext_get = x_get,
      ext_assign = (\<lambda>ty path v w. (None, AList.update path v w)),
      db_run = (\<lambda>sql w. (None, w)),
      db_prepare = (\<lambda>sql w. (None, w)),
      stmt_run = (\<lambda>sql params w.
                    (if JStr ''bad'' \<in> set params then Some (ErrExternal ''SQLITE_CONSTRAINT'') else None, w)),
      stmt_finalize = (\<lambda>sql w. (None, w)),
      db_all = (\<lambda>sql params w. (Inr (zip params (map (\<lambda>i. JNum (Fin (int i))) [1..<Suc (length params)])), w))\<rparr>"

text \<open>
  The example of the documentation: the group of the departments, keyed by \<open>code\<close>,
  and the mapping entries of an employee, whose \<open>dept_id\<close> is looked up by \<open>dept_code\<close>.
\<close>

definition x_keyspec_code :: "xnum keyspec" where
  "x_keyspec_code =
     \<lparr>ks_enabled = True, ks_mode = ''byColumns'', ks_columns = [JStr ''code''], ks_template = [],
      ks_separator = ''|'', ks_selectMissing = False, ks_returnPath = [], ks_idColumn = JStr ''id''\<rparr>"

definition x_departments :: "xnum group" where
  "x_departments =
     \<lparr>g_table = JStr ''Departments'', g_alias = [], g_sourceType = ''msg'',
      g_source = JStr ''departments'', g_autoMap = True, g_mapping = [], g_conflict = ''upsert'',
      g_upsertKeys = [JStr ''code''], g_updateColumns = [], g_keySpec = Some x_keyspec_code,
      g_returnRows = None\<rparr>"




definition x_config :: "string \<Rightarrow> bool \<Rightarrow> xnum group list \<Rightarrow> xnum run_config" where
  "x_config txMode coe gs =
     \<lparr>c_txMode = txMode, c_chunkSize = 500, c_continueOnError = coe, c_enableWAL = False,
      c_syncMode = [], c_extraPragmas = [], c_groups = gs\<rparr>"

text \<open>
  Small configurations for whole runs: a group \<open>T\<close> that copies its rows from the
  property \<open>a\<close> of the message, and a group \<open>U\<close> whose column \<open>t\<close> is looked up in the map
  of \<open>T\<close> by the field \<open>c\<close> of its rows, read from the property \<open>b\<close>.
\<close>

definition x_T :: "xnum group" where
  "x_T =
     \<lparr>g_table = JStr ''T'', g_alias = [], g_sourceType = ''msg'', g_source = JStr ''a'',
      g_autoMap = True, g_mapping = [], g_conflict = [], g_upsertKeys = [], g_updateColumns = [],
      g_keySpec = None, g_returnRows = None\<rparr>"

definition x_keyspec_c :: "xnum keyspec" where
  "x_keyspec_c =
     \<lparr>ks_enabled = True, ks_mode = ''byColumns'', ks_columns = [JStr ''c''], ks_template = [],
      ks_separator = [], ks_selectMissing = False, ks_returnPath = [], ks_idColumn = JStr ''id''\<rparr>"

definition x_U :: "bool \<Rightarrow> xnum group" where
  "x_U strict =
     \<lparr>g_table = JStr ''U'', g_alias = [], g_sourceType = ''msg'', g_source = JStr ''b'',
      g_autoMap = False,
      g_mapping = [\<lparr>m_col = JStr ''t'', m_source = ''lookup'', m_srcType = [], m_src = JUndefined,
                    m_transform = [],
                    m_lookup = Some \<lparr>l_fromGroup = ''T'', l_strict = strict, l_valueType = ''jsonata'',
                                     l_value = JStr ''c''\<rparr>\<rparr>],
      g_conflict = [], g_upsertKeys = [], g_updateColumns = [], g_keySpec = None,
      g_returnRows = None\<rparr>"

definition x_rows :: "string \<Rightarrow> string list \<Rightarrow> string \<times> xnum jsval" where
  "x_rows prop vs = (prop, JArr (map (\<lambda>v. JObj [(''c'', JStr v)]) vs))"

text \<open>Five mapped rows of the table \<open>T\<close>.\<close>

definition x_five :: "xnum row list" where
  "x_five = map (\<lambda>v. [(''c'', JStr v)]) [''1'', ''2'', ''3'', ''4'', ''5'']"

definition x_insert_T :: string where
  "x_insert_T = ''INSERT INTO '' @ [dquote] @ ''T'' @ [dquote] @ '' ('' @ [dquote] @ ''c'' @ [dquote]
                @ '') VALUES (?)''"

text \<open>
  \<open>x_T_blank_update\<close> is the group \<open>T\<close> as an upsert on \<open>c\<close> whose \<open>updateColumns\<close> holds
  an empty column name; \<open>x_T_template\<close> is the group \<open>T\<close> with a \<open>byTemplate\<close> KeySpec, and
  \<open>x_T_keyed\<close> with a \<open>byColumns\<close> KeySpec on \<open>c\<close>.
\<close>

definition x_T_blank_update :: "xnum group" where
  "x_T_blank_update =
     x_T\<lparr>g_conflict := ''upsert'', g_upsertKeys := [JStr ''c''], g_updateColumns := [JStr []]\<rparr>"

definition x_T_template :: "xnum group" where
  "x_T_template =
     x_T\<lparr>g_keySpec := Some (x_keyspec_c\<lparr>ks_mode := ''byTemplate'', ks_template := ''{{c}}''\<rparr>)\<rparr>"

definition x_T_keyed :: "xnum group" where
  "x_T_keyed = x_T\<lparr>g_keySpec := Some x_keyspec_c\<rparr>"

section \<open>Predicates on the state of a run\<close>

text \<open>
  \<open>published_below n s\<close>: every entry of \<open>ctxMaps\<close> was stored by a group of index below
  \<open>n\<close>. \<open>lookups_ordered ls\<close>: every recorded read of \<open>ctxMaps\<close> that found an entry was
  made by a group of larger index than the group that stored the entry. \<open>quiet m s s'\<close>:
  from \<open>s\<close> to \<open>s'\<close> neither \<open>ctxMaps\<close> nor the record of reads nor the loop variable
  changed, the error counter did not decrease, and under the transaction mode \<open>off\<close> no
  statement was given to \<open>db.run\<close>. \<open>mapping_step m s s'\<close>: the same for \<open>ctxMaps\<close>, the
  loop variable, the error counter and \<open>db.run\<close>, and the reads recorded since \<open>s\<close> are
  ordered if all entries of \<open>ctxMaps\<close> were stored by groups before the current one.
  \<open>publish_step m s s'\<close>: no read was recorded, and every entry of \<open>ctxMaps\<close> was there
  in \<open>s\<close> or was stored by the current group.
\<close>

definition published_below :: "nat \<Rightarrow> ('n, 'w) state \<Rightarrow> bool" where
  "published_below n s = list_all (\<lambda>e. fst (snd e) < n) (ctxMaps s)"

definition lookup_ordered :: "nat \<times> string \<times> nat option \<Rightarrow> bool" where
  "lookup_ordered l = (case snd (snd l) of None \<Rightarrow> True | Some j \<Rightarrow> j < fst l)"

definition lookups_ordered :: "(nat \<times> string \<times> nat option) list \<Rightarrow> bool" where
  "lookups_ordered ls = list_all lookup_ordered ls"

text \<open>The statements given to \<open>db.run\<close> in a trace, in order.\<close>

fun db_runs :: "'n db_call list \<Rightarrow> string list" where
  "db_runs [] = []"
| "db_runs (DbRun sql # cs) = sql # db_runs cs"
| "db_runs (c # cs) = db_runs cs"

definition quiet :: "string \<Rightarrow> ('n, 'w) state \<Rightarrow> ('n, 'w) state \<Rightarrow> bool" where
  "quiet m s s' = (ctxMaps s' = ctxMaps s \<and> lookups s' = lookups s \<and> cur s' = cur s
                   \<and> errors (totals s) \<le> errors (totals s')
                   \<and> (m = ''off'' \<longrightarrow> db_runs (trace s') = db_runs (trace s)))"

definition mapping_step :: "string \<Rightarrow> ('n, 'w) state \<Rightarrow> ('n, 'w) state \<Rightarrow> bool" where
  "mapping_step m s s' = (ctxMaps s' = ctxMaps s \<and> cur s' = cur s
       \<and> errors (totals s) \<le> errors (totals s')
       \<and> (m = ''off'' \<longrightarrow> db_runs (trace s') = db_runs (trace s))
       \<and> (published_below (cur s) s \<and> lookups_ordered (lookups s) \<longrightarrow> lookups_ordered (lookups s')))"

definition publish_step :: "string \<Rightarrow> ('n, 'w) state \<Rightarrow> ('n, 'w) state \<Rightarrow> bool" where
  "publish_step m s s' = (cur s' = cur s \<and> lookups s' = lookups s
       \<and> errors (totals s) \<le> errors (totals s')
       \<and> (m = ''off'' \<longrightarrow> db_runs (trace s') = db_runs (trace s))
       \<and> list_all (\<lambda>e. e \<in> set (ctxMaps s) \<or> fst (snd e) = cur s) (ctxMaps s'))"


text \<open>The number of rows counted so far, as inserted, updated or failed.\<close>

definition counted :: "('n, 'w) state \<Rightarrow> nat" where
  "counted s = inserted (totals s) + updated (totals s) + errors (totals s)"


text \<open>
  \<open>balanced s s'\<close>: from \<open>s\<close> to \<open>s'\<close> the run-wide error counter grew by the number of
  failures recorded.
\<close>

definition balanced :: "('n, 'w) state \<Rightarrow> ('n, 'w) state \<Rightarrow> bool" where
  "balanced s s' = (errors (totals s') + length (failures s) = errors (totals s) + length (failures s'))"
section \<open>Chunk partitioning\<close>

declare blocks.simps [simp del]

lemma slice_step:
  assumes "0 \<le> i" "i < int (length arr)" "1 \<le> n"
  shows "js_slice arr i (i + n) = take (nat n) (drop (nat i) arr)"
  using assms by (auto simp: js_slice_def Let_def min_def)

lemma chunkify_loop_blocks:
  assumes "1 \<le> n" "0 \<le> i"
  shows "chunkify_loop arr n i out = Some (out @ blocks (nat n) (drop (nat i) arr))"
  using assms
proof (induction "length arr - nat i" arbitrary: i out rule: less_induct)
  case less
  show ?case
  proof (cases "i < int (length arr)")
    case True
    have "length arr - nat (i + n) < length arr - nat i" using True less.prems by linarith
    from less.hyps[OF this] less.prems
    have ih: "chunkify_loop arr n (i + n) (out @ [js_slice arr i (i + n)])
        = Some ((out @ [js_slice arr i (i + n)]) @ blocks (nat n) (drop (nat (i + n)) arr))"
      by simp
    have d: "drop (nat (i + n)) arr = drop (nat n) (drop (nat i) arr)"
      using less.prems by (simp add: nat_add_distrib add.commute)
    have ne: "drop (nat i) arr \<noteq> []" using True less.prems by simp
    show ?thesis
      apply (subst chunkify_loop.simps)
      apply (simp add: True ih)
      apply (subst (2) blocks.simps)
      using ne less.prems True by (simp add: slice_step d)
  next
    case False
    then show ?thesis
      apply (subst chunkify_loop.simps)
      apply (subst blocks.simps)
      by simp
  qed
qed

lemma chunkify_blocks: "1 \<le> n \<Longrightarrow> chunkify arr n = Some (blocks (nat n) arr)"
  by (simp add: chunkify_def chunkify_loop_blocks)

text \<open>
  Both calls of \<open>chunkify\<close> in the node return: the step is at least 1 in the chunk
  selection and 500 in \<open>selectIdsByKeys\<close>, so that \<open>NoReturn\<close> never arises.
\<close>

lemma chunk_selection_returns:
  "select_chunks txMode n xs \<noteq> None" "chunkify xs 500 \<noteq> None"
  by (simp_all add: select_chunks_def chunkify_blocks)

lemma concat_blocks: "0 < k \<Longrightarrow> concat (blocks k xs) = xs"
  by (induction k xs rule: blocks.induct) (subst blocks.simps, simp)

lemma length_blocks: "0 < k \<Longrightarrow> length (blocks k xs) = (length xs + k - 1) div k"
proof (induction k xs rule: blocks.induct)
  case (1 k xs)
  show ?case
  proof (cases "xs = []")
    case True
    then show ?thesis using 1(2) by (subst blocks.simps) simp
  next
    case False
    with 1 have ih: "length (blocks k (drop k xs)) = (length xs - k + k - 1) div k" by simp
    show ?thesis
    proof (cases "length xs \<le> k")
      case True
      then have "(length xs + k - 1) div k = 1" using False 1(2)
        by (intro div_nat_eqI) (cases xs, auto)
      then show ?thesis using ih True False 1(2) by (subst blocks.simps) simp
    next
      case F2: False
      then have "(length xs + k - 1) div k = Suc ((length xs - k + k - 1) div k)"
        using 1(2) le_div_geq[of k "length xs + k - 1"] by simp
      then show ?thesis using ih False 1(2) by (subst blocks.simps) simp
    qed
  qed
qed

lemma blocks_sizes:
  "0 < k \<Longrightarrow> j < length (blocks k xs) \<Longrightarrow>
     (Suc j < length (blocks k xs) \<longrightarrow> length (blocks k xs ! j) = k)
     \<and> blocks k xs ! j \<noteq> [] \<and> length (blocks k xs ! j) \<le> k"
proof (induction k xs arbitrary: j rule: blocks.induct)
  case (1 k xs)
  have ne: "xs \<noteq> []" using 1(2,3) by (subst (asm) blocks.simps) auto
  have unf: "blocks k xs = take k xs # blocks k (drop k xs)"
    using ne 1(2) by (subst blocks.simps) simp
  show ?case
  proof (cases j)
    case 0
    show ?thesis
    proof (cases "blocks k (drop k xs) = []")
      case True
      then show ?thesis using 0 unf ne 1(2) by simp
    next
      case False
      then have "k < length xs" by (subst (asm) blocks.simps) (auto split: if_splits)
      then show ?thesis using 0 unf False 1(2) ne by simp
    qed
  next
    case (Suc j')
    then have "j' < length (blocks k (drop k xs))" using 1(3) unf by simp
    from 1(1)[OF _ 1(2) this] ne 1(2)
    have ih: "(Suc j' < length (blocks k (drop k xs)) \<longrightarrow> length (blocks k (drop k xs) ! j') = k)
         \<and> blocks k (drop k xs) ! j' \<noteq> [] \<and> length (blocks k (drop k xs) ! j') \<le> k"
      by simp
    then show ?thesis using Suc unf by simp
  qed
qed


text \<open>
  The claim C6 as first stated: under \<open>txMode = chunk\<close> with \<open>chunkSize = N\<close> the list is
  cut into \<open>ceil(M / max(1,N))\<close> chunks of \<open>max(1,N)\<close> rows. For a configured
  \<open>chunkSize\<close> of 0 that is one chunk for each row; the handler takes 500 for a
  \<open>chunkSize\<close> of 0, so that the two rows of a run form one chunk, in one transaction.
\<close>

theorem chunk_size_zero_counterexample:
  "local_chunkSize ((x_config ''chunk'' False [x_T])\<lparr>c_chunkSize := 0\<rparr>) = 500
   \<and> select_chunks (local_txMode ((x_config ''chunk'' False [x_T])\<lparr>c_chunkSize := 0\<rparr>))
        (local_chunkSize ((x_config ''chunk'' False [x_T])\<lparr>c_chunkSize := 0\<rparr>))
        [[(''c'', JStr ''x'')], [(''c'', JStr ''y'' :: xnum jsval)]]
      = Some [[[(''c'', JStr ''x'')], [(''c'', JStr ''y'')]]]
   \<and> trace (snd (run x_rt x_collab ''str'' (JStr ''db'')
                   ((x_config ''chunk'' False [x_T])\<lparr>c_chunkSize := 0\<rparr>) [x_rows ''a'' [''x'', ''y'']]))
      = [DbOpen ''db'', DbRun ''BEGIN'', DbPrepare x_insert_T, StmtRun x_insert_T [JStr ''x''],
         StmtRun x_insert_T [JStr ''y''], StmtFinalize x_insert_T, DbRun ''COMMIT'', DbClose]"
  by code_simp

text \<open>
  C6 (as amended). For a list of \<open>M\<close> mapped rows and a run configuration whose
  \<open>chunkSize\<close> is the integer \<open>N\<close>, let \<open>K\<close> be 500 when \<open>N\<close> is 0 and \<open>max(1,N)\<close>
  otherwise. The chunk selection of the handler returns, and the insert of the group is
  the loop over the chunks it returns, which concatenate to the list in order. Under
  \<open>txMode = chunk\<close> there are \<open>ceil(M / K)\<close> chunks, each but possibly the last of exactly
  \<open>K\<close> rows, the last one non-empty and no longer; under every other \<open>txMode\<close> (\<open>all\<close>,
  \<open>perTable\<close>, \<open>off\<close>) the whole list is the single chunk.
\<close>

theorem chunk_partition:
  fixes cfg :: "'n run_config" and mapped :: "'n row list"
  defines "K \<equiv> (if c_chunkSize cfg = 0 then 500 else nat (max 1 (c_chunkSize cfg)))"
  shows "\<exists>chunks.
           select_chunks (local_txMode cfg) (local_chunkSize cfg) mapped = Some chunks
         \<and> execGroup rt cb cfg g tkey cols mapped s
             = execChunks rt cb (c_continueOnError cfg)
                 (if local_txMode cfg = ''all'' then ''off'' else local_txMode cfg) g tkey cols chunks s
         \<and> concat chunks = mapped
         \<and> (c_txMode cfg = ''chunk'' \<longrightarrow>
              length chunks = (length mapped + K - 1) div K
              \<and> (\<forall>j. Suc j < length chunks \<longrightarrow> length (chunks ! j) = K)
              \<and> (\<forall>j < length chunks. chunks ! j \<noteq> [] \<and> length (chunks ! j) \<le> K))
         \<and> (c_txMode cfg \<noteq> ''chunk'' \<longrightarrow> chunks = [mapped])"
proof (cases "c_txMode cfg = ''chunk''")
  case True
  have k: "0 < K" by (auto simp: K_def max_def)
  have n: "nat (max 1 (local_chunkSize cfg)) = K" by (auto simp: K_def local_chunkSize_def)
  have m: "local_txMode cfg = ''chunk''" using True by (simp add: local_txMode_def)
  have sel: "select_chunks (local_txMode cfg) (local_chunkSize cfg) mapped = Some (blocks K mapped)"
    using chunkify_blocks[of "max 1 (local_chunkSize cfg)" mapped] m n
    by (simp add: select_chunks_def)
  have ex: "execGroup rt cb cfg g tkey cols mapped s
      = execChunks rt cb (c_continueOnError cfg)
          (if local_txMode cfg = ''all'' then ''off'' else local_txMode cfg) g tkey cols
          (blocks K mapped) s"
    unfolding execGroup_def Let_def sel by simp
  have a: "\<forall>j. Suc j < length (blocks K mapped) \<longrightarrow> length (blocks K mapped ! j) = K"
    using blocks_sizes[OF k, of _ mapped] by auto
  have b: "\<forall>j < length (blocks K mapped). blocks K mapped ! j \<noteq> [] \<and> length (blocks K mapped ! j) \<le> K"
    using blocks_sizes[OF k, of _ mapped] by auto
  show ?thesis
    apply (rule exI[of _ "blocks K mapped"])
    using sel ex length_blocks[OF k, of mapped] concat_blocks[OF k, of mapped] a b True
    by simp
next
  case False
  then have m: "local_txMode cfg \<noteq> ''chunk''" by (simp add: local_txMode_def)
  have sel: "select_chunks (local_txMode cfg) (local_chunkSize cfg) mapped = Some [mapped]"
    using m by (simp add: select_chunks_def)
  have ex: "execGroup rt cb cfg g tkey cols mapped s
      = execChunks rt cb (c_continueOnError cfg)
          (if local_txMode cfg = ''all'' then ''off'' else local_txMode cfg) g tkey cols [mapped] s"
    unfolding execGroup_def Let_def sel by simp
  show ?thesis
    apply (rule exI[of _ "[mapped]"])
    using sel ex False by simp
qed

theorem chunk_partition_witness:
  "(\<exists>chunks.
      execGroup x_rt x_collab ((x_config ''chunk'' False [])\<lparr>c_chunkSize := 2\<rparr>) (normGroup x_T) ''T''
          [JStr ''c''] x_five (init_state [])
        = execChunks x_rt x_collab False ''chunk'' (normGroup x_T) ''T'' [JStr ''c''] chunks (init_state [])
      \<and> length chunks = 3 \<and> concat chunks = x_five
      \<and> length (chunks ! 0) = 2 \<and> length (chunks ! 1) = 2 \<and> chunks ! 2 \<noteq> [])
   \<and> execGroup x_rt x_collab (x_config ''all'' False []) (normGroup x_T) ''T'' [JStr ''c''] x_five
        (init_state [])
      = execChunks x_rt x_collab False ''off'' (normGroup x_T) ''T'' [JStr ''c''] [x_five] (init_state [])"
proof -
  let ?c2 = "(x_config ''chunk'' False [])\<lparr>c_chunkSize := 2\<rparr> :: xnum run_config"
  let ?ca = "x_config ''all'' False [] :: xnum run_config"
  let ?g = "normGroup x_T"
  let ?s = "init_state [] :: (xnum, (string \<times> xnum jsval) list) state"
  have c2: "c_txMode ?c2 = ''chunk''" "c_chunkSize ?c2 = 2" "local_txMode ?c2 = ''chunk''"
    "c_continueOnError ?c2 = False"
    by (simp_all add: x_config_def local_txMode_def)
  have ca: "c_txMode ?ca \<noteq> ''chunk''" "local_txMode ?ca = ''all''" "c_continueOnError ?ca = False"
    by (simp_all add: x_config_def local_txMode_def)
  have l: "length x_five = 5" by (simp add: x_five_def)
  note i2 = chunk_partition[where cfg = ?c2 and mapped = x_five and rt = x_rt and cb = x_collab
      and g = ?g and tkey = "''T''" and cols = "[JStr ''c'']" and s = ?s]
  from i2 obtain cs where
      e: "execGroup x_rt x_collab ?c2 ?g ''T'' [JStr ''c''] x_five ?s
            = execChunks x_rt x_collab False ''chunk'' ?g ''T'' [JStr ''c''] cs ?s"
    and c: "concat cs = x_five"
    and ch: "c_txMode ?c2 = ''chunk'' \<longrightarrow>
              length cs = (length x_five + 2 - 1) div 2
              \<and> (\<forall>j. Suc j < length cs \<longrightarrow> length (cs ! j) = 2)
              \<and> (\<forall>j < length cs. cs ! j \<noteq> [] \<and> length (cs ! j) \<le> 2)"
    unfolding c2 by auto
  from ch c2(1) l have n: "length cs = 3"
    and c4: "\<forall>j. Suc j < length cs \<longrightarrow> length (cs ! j) = 2"
    and c5: "\<forall>j < length cs. cs ! j \<noteq> [] \<and> length (cs ! j) \<le> 2"
    by simp_all
  have l0: "length (cs ! 0) = 2" using c4[rule_format, of 0] n by simp
  have l1: "length (cs ! 1) = 2" using c4[rule_format, of 1] n by simp
  have l2: "cs ! 2 \<noteq> []" using c5[rule_format, of 2] n by simp
  note ia = chunk_partition[where cfg = ?ca and mapped = x_five and rt = x_rt and cb = x_collab
      and g = ?g and tkey = "''T''" and cols = "[JStr ''c'']" and s = ?s]
  from ia ca(1) have a: "execGroup x_rt x_collab ?ca ?g ''T'' [JStr ''c''] x_five ?s
        = execChunks x_rt x_collab False ''off'' ?g ''T'' [JStr ''c''] [x_five] ?s"
    unfolding ca(2,3) by auto
  show ?thesis
    apply (rule conjI)
     apply (rule exI[of _ cs])
    using e n c l0 l1 l2 apply simp
    by (rule a)
qed

section \<open>Transforms\<close>


lemma js_Number_of_String:
  "js_String rt v = Inr s \<Longrightarrow> \<exists>n. js_Number rt v = Inr n"
  by (cases v) auto

text \<open>
  C7 (as amended). For every input value \<open>v\<close> that has a string form \<open>String(v) = s\<close>:
  boolean coercion gives 1 when \<open>v\<close> is \<open>true\<close>, \<open>1\<close> or \<open>"1"\<close>, or when \<open>s\<close> is a case
  variant of \<open>true\<close> (which holds for a string, and also for an array such as
  \<open>["true"]\<close>), and 0 otherwise; numeric coercion gives \<open>null\<close> when \<open>v\<close> is \<open>null\<close> or
  \<open>undefined\<close>, when \<open>s\<close> is blank after trimming, or when \<open>Number(v)\<close> is not finite, and
  \<open>Number(v)\<close> otherwise; null-normalisation gives \<open>null\<close> when \<open>v\<close> is \<open>null\<close> or
  \<open>undefined\<close> or when the trimmed \<open>s\<close> is blank or a case variant of \<open>N/A\<close> or \<open>NA\<close>, and
  \<open>v\<close> itself otherwise; stringification gives the empty string for \<open>null\<close> and
  \<open>undefined\<close>, and \<open>s\<close> otherwise.
\<close>

theorem transform_semantics:
  assumes "js_String rt v = Inr s"
  shows "t_bool01 rt v =
           Inr (JNum (if v = JBool True \<or> v = JNum (num_one rt) \<or> v = JStr ''1'' \<or> re_true s
                      then num_one rt else num_zero rt))
       \<and> (\<exists>n. js_Number rt v = Inr n
              \<and> t_number rt v =
                  Inr (if nullish v \<or> js_trim rt s = [] \<or> \<not> is_finite rt n then JNull else JNum n))
       \<and> t_nz rt v =
           Inr (if nullish v \<or> js_trim rt s = [] \<or> re_na (js_trim rt s) then JNull else v)
       \<and> t_string rt v = Inr (JStr (if nullish v then [] else s))"
proof -
  have b: "t_bool01 rt v =
           Inr (JNum (if v = JBool True \<or> v = JNum (num_one rt) \<or> v = JStr ''1'' \<or> re_true s
                      then num_one rt else num_zero rt))"
    using assms by (simp add: t_bool01_def)
  obtain n where n: "js_Number rt v = Inr n" using js_Number_of_String[OF assms] by blast
  have nu: "t_number rt v =
        Inr (if nullish v \<or> js_trim rt s = [] \<or> \<not> is_finite rt n then JNull else JNum n)"
    using assms n by (simp add: t_number_def)
  have z: "t_nz rt v =
           Inr (if nullish v \<or> js_trim rt s = [] \<or> re_na (js_trim rt s) then JNull else v)"
    using assms by (simp add: t_nz_def Let_def)
  have st: "t_string rt v = Inr (JStr (if nullish v then [] else s))"
    using assms by (simp add: t_string_def)
  show ?thesis using b n nu z st by blast
qed

lemma x_rt_simps [simp]:
  "num_to_string x_rt = xnum_to_string" "str_to_number x_rt = xnum_of_string"
  "num_zero x_rt = Fin 0" "num_one x_rt = Fin 1" "num_nan x_rt = NaN" "is_ws x_rt = x_ws"
  "is_finite x_rt = (\<lambda>n. case n of Fin i \<Rightarrow> True | _ \<Rightarrow> False)"
  "num_falsy x_rt = (\<lambda>n. case n of Fin i \<Rightarrow> i = 0 | NaN \<Rightarrow> True | Infinity \<Rightarrow> False)"
  "json_stringify x_rt = x_json"
  by (simp_all add: x_rt_def)

lemma re_true_true: "re_true ''true''"
  by (simp add: re_true_def ci_match_def)

text \<open>
  The claim as first stated sends every value other than \<open>true\<close>, \<open>1\<close>, \<open>"1"\<close> and the
  case variants of the string \<open>true\<close> to 0; the array \<open>["true"]\<close> is none of them and is
  sent to 1.
\<close>

theorem bool01_array_counterexample:
  "t_bool01 x_rt (JArr [JStr ''true'']) = Inr (JNum (Fin 1))
   \<and> t_bool01 x_rt (JArr [JStr ''true'']) \<noteq> Inr (JNum (Fin 0))"
  by (simp add: t_bool01_def re_true_true)

text \<open>
  On the values that are not arrays or objects the boolean coercion is what the claim
  first said, as long as no number prints as a case variant of \<open>true\<close>: 1 for \<open>true\<close>,
  \<open>1\<close>, \<open>"1"\<close> and the strings that are case variants of \<open>true\<close>, and 0 otherwise.
\<close>

lemma bool01_on_scalars:
  assumes "\<And>n. \<not> re_true (num_to_string rt n)"
    and "v = JNull \<or> v = JUndefined \<or> (\<exists>b. v = JBool b) \<or> (\<exists>n. v = JNum n) \<or> (\<exists>s. v = JStr s)"
  shows "t_bool01 rt v =
           Inr (JNum (if v = JBool True \<or> v = JNum (num_one rt) \<or> v = JStr ''1''
                         \<or> (\<exists>s. v = JStr s \<and> re_true s)
                      then num_one rt else num_zero rt))"
proof -
  have f: "\<not> re_true ''false''" "\<not> re_true ''null''" "\<not> re_true ''undefined''"
    "re_true ''true''"
    by (simp_all add: re_true_def ci_match_def)
  from assms(2) show ?thesis
  proof (elim disjE exE)
    fix b assume "v = JBool b"
    then show ?thesis using f by (cases b) (simp_all add: t_bool01_def)
  qed (simp_all add: t_bool01_def f assms(1))
qed


lemma x_ws_simps: "\<not> x_ws (CHR ''N'')" "\<not> x_ws (CHR ''A'')" "\<not> x_ws (CHR ''/'')" "x_ws (CHR '' '')"
  by (simp_all add: x_ws_def)

theorem transform_semantics_witness:
  "js_String x_rt (JArr [JStr ''true'']) = Inr ''true''
   \<and> t_bool01 x_rt (JArr [JStr ''true'']) = Inr (JNum (Fin 1))
   \<and> t_string x_rt (JArr [JStr ''true'']) = Inr (JStr ''true'')
   \<and> js_String x_rt (JStr '' N/A '') = Inr '' N/A ''
   \<and> t_nz x_rt (JStr '' N/A '') = Inr JNull"
proof -
  have s1: "js_String x_rt (JArr [JStr ''true'']) = Inr ''true''" by simp
  have s2: "js_String x_rt (JStr '' N/A '') = Inr '' N/A ''" by simp
  have tr: "js_trim x_rt '' N/A '' = ''N/A''" by (simp add: js_trim_def x_ws_simps)
  have na: "re_na ''N/A''" by (simp add: re_na_def ci_match_def)
  show ?thesis
    using transform_semantics[OF s1] transform_semantics[OF s2] s1 s2 tr na re_true_true
    by simp
qed

text \<open>
  C9. Applying a transform never fails a mapping: whenever the function selected for a
  name throws on a value, \<open>applyTransform\<close> returns that value unchanged, for any
  registry and for the node's own; and a value entry of a mapping whose transform throws
  assigns the resolved value itself to its column and goes on with the next entry.
\<close>

theorem applyTransform_swallows_throw:
  assumes "transform_fn tbl name v = Inl e"
  shows "applyTransformWith tbl v name = v
       \<and> (tbl = transforms rt \<longrightarrow> applyTransform rt v name = v)
       \<and> (tbl = transforms rt \<and> name = m_transform m \<and> truthy rt (m_col m)
            \<and> m_source m \<noteq> ''lookup''
            \<and> typedGet rt cb (if m_srcType m = [] then ''str'' else m_srcType m) (m_src m) srcRow s
                = (Inr v, s1)
            \<and> js_String rt (m_col m) = Inr k
          \<longrightarrow> mapEntries rt cb (m # ms) srcRow out s
                = mapEntries rt cb ms srcRow (AList.update k v out) s1)"
  using assms by (auto simp: applyTransformWith_def applyTransform_def)

lemma transforms_trim: "transform_fn (transforms x_rt) ''trim'' = t_trim x_rt"
  by (simp add: transform_fn_def transforms_def)

theorem applyTransform_swallows_throw_witness:
  "transform_fn (transforms x_rt) ''trim'' (JBare []) = Inl ErrType
   \<and> applyTransformWith (transforms x_rt) (JBare []) ''trim'' = JBare []
   \<and> applyTransform x_rt (JBare []) ''trim'' = JBare []"
proof -
  have t: "transform_fn (transforms x_rt) ''trim'' (JBare []) = Inl ErrType"
    by (simp add: transforms_trim t_trim_def)
  note th = applyTransform_swallows_throw[OF t, of x_rt]
  have a: "applyTransformWith (transforms x_rt) (JBare []) ''trim'' = JBare []"
    using th by (rule conjunct1)
  have b: "applyTransform x_rt (JBare []) ''trim'' = JBare []"
    using th[THEN conjunct2, THEN conjunct1] by simp
  show ?thesis using t a b by (intro conjI)
qed


section \<open>The SQL builder and the row mapper\<close>


lemma map_err_set_clause:
  "map_err (qid rt) xs = Inr us \<Longrightarrow>
   map_err (\<lambda>c. case qid rt c of Inl e \<Rightarrow> Inl e | Inr q \<Rightarrow> Inr (q @ ''=excluded.'' @ q)) xs
     = Inr (map (\<lambda>q. q @ ''=excluded.'' @ q) us)"
  by (induction xs arbitrary: us) (auto split: sum.splits)

lemma buildUpsert_cases:
  "filter (truthy rt) keys = [] \<Longrightarrow> buildUpsert rt keys ucols = Inr []"
  "filter (truthy rt) keys \<noteq> [] \<Longrightarrow> map_err (qid rt) (filter (truthy rt) keys) = Inr qs \<Longrightarrow>
     ucols = [] \<Longrightarrow>
     buildUpsert rt keys ucols = Inr ('' ON CONFLICT ('' @ join_with '', '' qs @ '') DO NOTHING'')"
  "filter (truthy rt) keys \<noteq> [] \<Longrightarrow> map_err (qid rt) (filter (truthy rt) keys) = Inr qs \<Longrightarrow>
     ucols \<noteq> [] \<Longrightarrow> map_err (qid rt) ucols = Inr us \<Longrightarrow>
     buildUpsert rt keys ucols
       = Inr ('' ON CONFLICT ('' @ join_with '', '' qs @ '') DO UPDATE SET ''
              @ join_with '', '' (map (\<lambda>q. q @ ''=excluded.'' @ q) us))"
  by (simp_all add: buildUpsert_def Let_def map_err_set_clause)

text \<open>
  C3 (as amended). For a group with \<open>conflict = upsert\<close> whose table and columns are
  valid identifiers, the statement carries an \<open>ON CONFLICT\<close> clause exactly when
  \<open>upsertKeys\<close>, without its falsy entries, is not empty: it is then \<open>DO NOTHING\<close> for
  empty \<open>updateColumns\<close> and \<open>DO UPDATE SET col=excluded.col, ...\<close> otherwise, and with no
  key left the statement is the plain \<open>INSERT\<close>. \<open>upsertKeys\<close> is never filled from the
  KeySpec; the defaulting runs the other way, the columns of a \<open>byColumns\<close> KeySpec
  without columns being taken from \<open>upsertKeys\<close>.
\<close>

theorem upsert_clause_follows_upsertKeys:
  assumes "g_conflict g = ''upsert''"
    and "qid rt (g_table g) = Inr table"
    and "map_err (qid rt) cols = Inr qcols"
  defines "head \<equiv> insert_head ''upsert'' table qcols"
  defines "k \<equiv> filter (truthy rt) (g_upsertKeys g)"
  shows "(k = [] \<longrightarrow> buildInsertSQL rt g cols = Inr head)
       \<and> (k \<noteq> [] \<and> map_err (qid rt) k = Inr qs \<and> g_updateColumns g = [] \<longrightarrow>
            buildInsertSQL rt g cols
              = Inr (head @ '' ON CONFLICT ('' @ join_with '', '' qs @ '') DO NOTHING''))
       \<and> (k \<noteq> [] \<and> map_err (qid rt) k = Inr qs \<and> g_updateColumns g \<noteq> []
            \<and> map_err (qid rt) (g_updateColumns g) = Inr us \<longrightarrow>
            buildInsertSQL rt g cols
              = Inr (head @ '' ON CONFLICT ('' @ join_with '', '' qs @ '') DO UPDATE SET ''
                     @ join_with '', '' (map (\<lambda>q. q @ ''=excluded.'' @ q) us)))
       \<and> g_upsertKeys (normGroup g) = g_upsertKeys g
       \<and> (g_keySpec g = Some ks \<and> ks_enabled ks \<longrightarrow>
            (\<exists>sp. normKeySpec rt g = Some sp
               \<and> ks_columns sp =
                   (if (ks_mode ks = [] \<or> ks_mode ks = ''byColumns'') \<and> ks_columns ks = []
                       \<and> g_upsertKeys g \<noteq> []
                    then g_upsertKeys g else ks_columns ks)))"
proof -
  have b: "buildInsertSQL rt g cols =
      (case buildUpsert rt (g_upsertKeys g) (g_updateColumns g) of
         Inl e \<Rightarrow> Inl e | Inr tail \<Rightarrow> Inr (head @ tail))"
    unfolding head_def using assms(1-3) by (simp add: buildInsertSQL_def Let_def)
  have c1: "k = [] \<longrightarrow> buildInsertSQL rt g cols = Inr head"
    by (simp add: b k_def buildUpsert_cases(1))
  have c2: "k \<noteq> [] \<and> map_err (qid rt) k = Inr qs \<and> g_updateColumns g = [] \<longrightarrow>
            buildInsertSQL rt g cols
              = Inr (head @ '' ON CONFLICT ('' @ join_with '', '' qs @ '') DO NOTHING'')"
    unfolding k_def b using buildUpsert_cases(2)[of rt "g_upsertKeys g" qs "g_updateColumns g"]
    by auto
  have c3: "k \<noteq> [] \<and> map_err (qid rt) k = Inr qs \<and> g_updateColumns g \<noteq> []
            \<and> map_err (qid rt) (g_updateColumns g) = Inr us \<longrightarrow>
            buildInsertSQL rt g cols
              = Inr (head @ '' ON CONFLICT ('' @ join_with '', '' qs @ '') DO UPDATE SET ''
                     @ join_with '', '' (map (\<lambda>q. q @ ''=excluded.'' @ q) us))"
    unfolding k_def b using buildUpsert_cases(3)[of rt "g_upsertKeys g" qs "g_updateColumns g" us]
    by auto
  have c4: "g_upsertKeys (normGroup g) = g_upsertKeys g" by (simp add: normGroup_def)
  have c5: "g_keySpec g = Some ks \<and> ks_enabled ks \<longrightarrow>
            (\<exists>sp. normKeySpec rt g = Some sp
               \<and> ks_columns sp =
                   (if (ks_mode ks = [] \<or> ks_mode ks = ''byColumns'') \<and> ks_columns ks = []
                       \<and> g_upsertKeys g \<noteq> []
                    then g_upsertKeys g else ks_columns ks))"
    using assms(1) by (auto simp: normKeySpec_def)
  show ?thesis using c1 c2 c3 c4 c5 by blast
qed

lemma qid_Departments: "qid x_rt (JStr ''Departments'') = Inr ([dquote] @ ''Departments'' @ [dquote])"
  by (simp add: qid_def dquote_def)

lemma qid_code: "qid x_rt (JStr ''code'') = Inr ([dquote] @ ''code'' @ [dquote])"
  by (simp add: qid_def dquote_def)

text \<open>
  The claim as first stated: a group with \<open>conflict = upsert\<close>, no \<open>upsertKeys\<close> and a
  \<open>byColumns\<close> KeySpec on \<open>code\<close> would get an \<open>ON CONFLICT\<close> clause on \<open>code\<close>. Its
  statement is the plain \<open>INSERT\<close>.
\<close>

theorem upsert_without_keys_counterexample:
  "g_conflict (normGroup (x_departments\<lparr>g_upsertKeys := []\<rparr>)) = ''upsert''
   \<and> g_upsertKeys (normGroup (x_departments\<lparr>g_upsertKeys := []\<rparr>)) = []
   \<and> map_option ks_columns (normKeySpec x_rt (normGroup (x_departments\<lparr>g_upsertKeys := []\<rparr>)))
       = Some [JStr ''code'']
   \<and> buildInsertSQL x_rt (normGroup (x_departments\<lparr>g_upsertKeys := []\<rparr>)) [JStr ''code'']
       = Inr (''INSERT INTO '' @ [dquote] @ ''Departments'' @ [dquote] @ '' (''
              @ [dquote] @ ''code'' @ [dquote] @ '') VALUES (?)'')"
  by (simp add: x_departments_def normGroup_def normKeySpec_def x_keyspec_code_def
      buildInsertSQL_def qid_Departments qid_code insert_head_def buildUpsert_def)

theorem upsert_clause_follows_upsertKeys_witness:
  "g_conflict x_departments = ''upsert''
   \<and> buildInsertSQL x_rt x_departments [JStr ''code'']
       = Inr (''INSERT INTO '' @ [dquote] @ ''Departments'' @ [dquote] @ '' (''
              @ [dquote] @ ''code'' @ [dquote] @ '') VALUES (?) ON CONFLICT (''
              @ [dquote] @ ''code'' @ [dquote] @ '') DO NOTHING'')
   \<and> buildInsertSQL x_rt (x_departments\<lparr>g_upsertKeys := []\<rparr>) [JStr ''code'']
       = Inr (''INSERT INTO '' @ [dquote] @ ''Departments'' @ [dquote] @ '' (''
              @ [dquote] @ ''code'' @ [dquote] @ '') VALUES (?)'')"
proof -
  have a1: "g_conflict x_departments = ''upsert''" by (simp add: x_departments_def)
  have a2: "qid x_rt (g_table x_departments) = Inr ([dquote] @ ''Departments'' @ [dquote])"
    by (simp add: x_departments_def qid_Departments)
  have a3: "map_err (qid x_rt) [JStr ''code''] = Inr [[dquote] @ ''code'' @ [dquote]]"
    by (simp add: qid_code)
  have k: "filter (truthy x_rt) (g_upsertKeys x_departments) = [JStr ''code'']"
    by (simp add: x_departments_def)
  have u: "g_updateColumns x_departments = []" by (simp add: x_departments_def)
  note th = upsert_clause_follows_upsertKeys[OF a1 a2 a3, of "[[dquote] @ ''code'' @ [dquote]]"]
  have r1: "buildInsertSQL x_rt x_departments [JStr ''code'']
       = Inr (insert_head ''upsert'' ([dquote] @ ''Departments'' @ [dquote]) [[dquote] @ ''code'' @ [dquote]]
              @ '' ON CONFLICT ('' @ join_with '', '' [[dquote] @ ''code'' @ [dquote]] @ '') DO NOTHING'')"
    using th[THEN conjunct2, THEN conjunct1] k u a3 by simp
  have b1: "g_conflict (x_departments\<lparr>g_upsertKeys := []\<rparr>) = ''upsert''" by (simp add: x_departments_def)
  have b2: "qid x_rt (g_table (x_departments\<lparr>g_upsertKeys := []\<rparr>)) = Inr ([dquote] @ ''Departments'' @ [dquote])"
    by (simp add: x_departments_def qid_Departments)
  have r2: "buildInsertSQL x_rt (x_departments\<lparr>g_upsertKeys := []\<rparr>) [JStr ''code'']
       = Inr (insert_head ''upsert'' ([dquote] @ ''Departments'' @ [dquote]) [[dquote] @ ''code'' @ [dquote]])"
    using upsert_clause_follows_upsertKeys[OF b1 b2 a3, THEN conjunct1] by simp
  show ?thesis using a1 r1 r2 by (simp add: insert_head_def)
qed



lemma x_collab_simps [simp]:
  "ext_get x_collab = x_get"
  "db_run x_collab = (\<lambda>sql w. (None, w))"
  "db_prepare x_collab = (\<lambda>sql w. (None, w))"
  "stmt_finalize x_collab = (\<lambda>sql w. (None, w))"
  by (simp_all add: x_collab_def)

section \<open>Ordering of the groups\<close>


declare mapEntries.simps [simp del] mapRows.simps [simp del] runRows.simps [simp del]
  execChunks.simps [simp del] selectChunks.simps [simp del] processGroups.simps [simp del]
  runPragmas.simps [simp del]

lemma quiet_refl [simp]: "quiet md s s"
  by (simp add: quiet_def)

lemma quiet_trans: "quiet md s s1 \<Longrightarrow> quiet md s1 s2 \<Longrightarrow> quiet md s s2"
  by (simp add: quiet_def)

lemma db_runs_append [simp]: "db_runs (xs @ ys) = db_runs xs @ db_runs ys"
  by (induction xs rule: db_runs.induct) simp_all

lemma quiet_called_run: "md \<noteq> ''off'' \<Longrightarrow> quiet md s (called c w s)"
  by (simp add: quiet_def called_def)

lemma quiet_called [simp]:
  "quiet md s (called (DbOpen p) w s)" "quiet md s (called (DbPrepare sql) w s)"
  "quiet md s (called (StmtRun sql ps) w s)" "quiet md s (called (StmtFinalize sql) w s)"
  "quiet md s (called (DbAll sql ps) w s)" "quiet md s (called DbClose w s)"
  by (simp_all add: quiet_def called_def)

lemma quiet_warn [simp]: "quiet md s (warn x s)"
  by (simp add: quiet_def warn_def)

lemma quiet_world [simp]: "quiet md s (s\<lparr>world := w\<rparr>)"
  by (simp add: quiet_def)

lemma quiet_count_error [simp]: "quiet md s (count_error t s)"
  by (simp add: quiet_def count_error_def)

lemma quiet_count_success [simp]: "quiet md s (count_success c t s)"
  by (simp add: quiet_def count_success_def)

lemma dbRun_quiet: "md \<noteq> ''off'' \<Longrightarrow> dbRun cb sql s = (r, s') \<Longrightarrow> quiet md s s'"
  by (auto simp: dbRun_def quiet_called_run split: prod.splits)

lemma dbPrepare_quiet: "dbPrepare cb sql s = (r, s') \<Longrightarrow> quiet md s s'"
  by (auto simp: dbPrepare_def split: prod.splits)

lemma quiet_failed [simp]: "quiet md s (failed f s)"
  by (simp add: quiet_def failed_def)

lemma stmtRun_quiet: "stmtRun cb sql ps s = (r, s') \<Longrightarrow> quiet md s s'"
  by (auto simp: stmtRun_def quiet_def called_def failed_def split: prod.splits option.splits)

lemma dbFinalize_quiet: "dbFinalize cb sql s = (r, s') \<Longrightarrow> quiet md s s'"
  by (auto simp: dbFinalize_def split: prod.splits)

lemma dbAll_quiet: "dbAll cb sql ps s = (r, s') \<Longrightarrow> quiet md s s'"
  by (auto simp: dbAll_def split: prod.splits)

lemma beginTx_quiet: "beginTx cb md s = (r, s') \<Longrightarrow> quiet md s s'"
  by (auto simp: beginTx_def dest: dbRun_quiet[rotated] split: if_splits)

lemma commitTx_quiet: "commitTx cb md s = (r, s') \<Longrightarrow> quiet md s s'"
  by (auto simp: commitTx_def dest: dbRun_quiet[rotated] split: if_splits)

lemma rollbackTx_quiet [simp]: "quiet md s (rollbackTx cb md s)"
  by (cases "dbRun cb ''ROLLBACK'' s") (auto simp: rollbackTx_def dest: dbRun_quiet[rotated])

lemma typedGet_quiet_snd: "quiet md s (snd (typedGet rt cb ty v rc s))"
  by (simp add: typedGet_def quiet_def warn_def split: prod.split sum.split)

lemma typedGet_quiet: "typedGet rt cb ty v rc s = (r, s') \<Longrightarrow> quiet md s s'"
  using typedGet_quiet_snd[of md s rt cb ty v rc] by simp

lemma assignTypedPath_quiet: "assignTypedPath cb ty p v s = (r, s') \<Longrightarrow> quiet md s s'"
  by (auto simp: assignTypedPath_def split: if_splits prod.splits)

lemma runRows_quiet: "runRows rt cb coe g t sql cols ch s = (r, s') \<Longrightarrow> quiet md s s'"
proof (induction ch arbitrary: s)
  case Nil
  then show ?case by (simp add: runRows.simps)
next
  case (Cons a ch)
  show ?case
  proof (cases "stmtRun cb sql (map (param_of rt a) cols) s")
    case (Pair r1 s1)
    have q1: "quiet md s s1" using Pair by (rule stmtRun_quiet)
    show ?thesis
    proof (cases r1)
      case None
      with Pair Cons.prems
      have "runRows rt cb coe g t sql cols ch (count_success (g_conflict g) t s1) = (r, s')"
        by (simp add: runRows.simps)
      from Cons.IH[OF this] show ?thesis
        using q1 quiet_count_success quiet_trans by blast
    next
      case (Some e)
      show ?thesis
      proof (cases coe)
        case True
        with Some Pair Cons.prems
        have "runRows rt cb coe g t sql cols ch (count_error t s1) = (r, s')"
          by (simp add: runRows.simps Let_def)
        from Cons.IH[OF this] show ?thesis
          using q1 quiet_count_error quiet_trans by blast
      next
        case False
        with Some Pair Cons.prems have "s' = count_error t s1"
          by (simp add: runRows.simps Let_def)
        then show ?thesis using q1 quiet_count_error quiet_trans by blast
      qed
    qed
  qed
qed

lemma chunkBody_quiet: "chunkBody rt cb coe txm g t cols ch s = (r, s') \<Longrightarrow> quiet txm s s'"
  unfolding chunkBody_def
  by (auto split: sum.splits prod.splits option.splits
           dest!: dbPrepare_quiet[where md = txm] runRows_quiet[where md = txm]
                  dbFinalize_quiet[where md = txm] commitTx_quiet
           simp: quiet_def)

lemma execChunk_quiet:
  assumes "execChunk rt cb coe txm g t cols ch s = (r, s')"
  shows "quiet txm s s'"
proof (cases "beginTx cb txm s")
  case (Pair r1 s1)
  have q1: "quiet txm s s1" using Pair by (rule beginTx_quiet)
  show ?thesis
  proof (cases r1)
    case (Some e)
    with Pair assms have "s' = s1" by (simp add: execChunk_def)
    then show ?thesis using q1 by simp
  next
    case None
    show ?thesis
    proof (cases "chunkBody rt cb coe txm g t cols ch s1")
      case P2: (Pair r2 s2)
      have q2: "quiet txm s1 s2" using P2 by (rule chunkBody_quiet)
      have q3: "quiet txm s2 (rollbackTx cb txm s2)" by simp
      have "s' = s2 \<or> s' = rollbackTx cb txm s2"
        using assms Pair None P2 by (cases r2) (auto simp: execChunk_def Let_def split: if_splits)
      then show ?thesis using q1 q2 q3 quiet_trans by blast
    qed
  qed
qed

lemma execChunks_quiet: "execChunks rt cb coe txm g t cols chs s = (r, s') \<Longrightarrow> quiet txm s s'"
proof (induction chs arbitrary: s)
  case Nil
  then show ?case by (simp add: execChunks.simps)
next
  case (Cons ch chs)
  show ?case
  proof (cases "execChunk rt cb coe txm g t cols ch s")
    case (Pair r1 s1)
    have q1: "quiet txm s s1" using Pair by (rule execChunk_quiet)
    show ?thesis
    proof (cases r1)
      case None
      with Pair Cons.prems have "execChunks rt cb coe txm g t cols chs s1 = (r, s')"
        by (simp add: execChunks.simps)
      from Cons.IH[OF this] q1 show ?thesis by (rule quiet_trans[rotated])
    next
      case (Some e)
      with Pair Cons.prems have "s' = s1" by (simp add: execChunks.simps)
      then show ?thesis using q1 by simp
    qed
  qed
qed

lemma execGroup_quiet:
  "execGroup rt cb cfg g t cols mapped s = (r, s') \<Longrightarrow>
   quiet (if local_txMode cfg = ''all'' then ''off'' else local_txMode cfg) s s'"
  unfolding execGroup_def Let_def
  by (auto split: option.splits dest: execChunks_quiet)

lemma selectChunks_quiet: "selectChunks rt cb i e t chs out s = (r, s') \<Longrightarrow> quiet md s s'"
proof (induction chs arbitrary: s out)
  case Nil
  then show ?case by (simp add: selectChunks.simps)
next
  case (Cons ch chs)
  let ?sql = "''SELECT '' @ i @ '' AS id, ('' @ e @ '') AS _k FROM '' @ t
                @ '' WHERE ('' @ e @ '') IN ('' @ join_with '', '' (map (\<lambda>_. ''?'') ch) @ '')''"
  show ?case
  proof (cases "dbAll cb ?sql (map JStr ch) s")
    case (Pair r1 s1)
    have q1: "quiet md s s1" using Pair by (rule dbAll_quiet)
    show ?thesis
    proof (cases r1)
      case (Inl err)
      with Pair Cons.prems have "s' = s1" by (simp add: selectChunks.simps Let_def)
      then show ?thesis using q1 by simp
    next
      case (Inr rows)
      show ?thesis
      proof (cases "set_rows rt rows out")
        case (Inl err)
        with Inr Pair Cons.prems have "s' = s1" by (simp add: selectChunks.simps Let_def)
        then show ?thesis using q1 by simp
      next
        case (Inr out')
        with \<open>r1 = Inr rows\<close> Pair Cons.prems
        have "selectChunks rt cb i e t chs out' s1 = (r, s')"
          by (simp add: selectChunks.simps Let_def)
        from Cons.IH[OF this] q1 show ?thesis by (rule quiet_trans[rotated])
      qed
    qed
  qed
qed

lemma selectIdsByKeys_quiet: "selectIdsByKeys rt cb g sp keys s = (r, s') \<Longrightarrow> quiet md s s'"
  unfolding selectIdsByKeys_def
  by (auto split: if_splits sum.splits option.splits dest: selectChunks_quiet)

lemma projectReturnRows_quiet: "projectReturnRows rt cb g a mapped s = (r, s') \<Longrightarrow> quiet md s s'"
  unfolding projectReturnRows_def
  by (auto split: if_splits sum.splits option.splits prod.splits
           dest!: selectIdsByKeys_quiet assignTypedPath_quiet simp: quiet_def warn_def)


lemma mapping_step_refl [simp]: "mapping_step md s s"
  by (simp add: mapping_step_def)

lemma mapping_step_trans: "mapping_step md s s1 \<Longrightarrow> mapping_step md s1 s2 \<Longrightarrow> mapping_step md s s2"
  by (auto simp: mapping_step_def published_below_def)

lemma quiet_mapping_step: "quiet md s s' \<Longrightarrow> mapping_step md s s'"
  by (simp add: quiet_def mapping_step_def)

lemma publish_step_refl [simp]: "publish_step md s s"
  by (simp add: publish_step_def list_all_iff)

lemma publish_step_trans: "publish_step md s s1 \<Longrightarrow> publish_step md s1 s2 \<Longrightarrow> publish_step md s s2"
  by (auto simp: publish_step_def list_all_iff)

lemma quiet_publish_step: "quiet md s s' \<Longrightarrow> publish_step md s s'"
  by (simp add: quiet_def publish_step_def list_all_iff)

lemma set_alist_update: "set (AList.update k v al) \<subseteq> insert (k, v) (set al)"
  by (induction al) auto

lemma resolveLookupId_step: "resolveLookupId rt a p s = (r, s') \<Longrightarrow> mapping_step md s s'"
proof (cases "map_of (ctxMaps s) a")
  case None
  assume "resolveLookupId rt a p s = (r, s')"
  with None have "s' = (warn (WarnLookupMapMissing a) s)\<lparr>lookups := lookups s @ [(cur s, a, None)]\<rparr>"
    by (simp add: resolveLookupId_def)
  then show ?thesis
    by (simp add: mapping_step_def warn_def lookups_ordered_def lookup_ordered_def)
next
  case (Some pm)
  assume a: "resolveLookupId rt a p s = (r, s')"
  obtain pub m where pm: "pm = (pub, m)" by (cases pm)
  have s': "s' = s\<lparr>lookups := lookups s @ [(cur s, a, Some pub)]\<rparr>"
    using a Some pm by (auto simp: resolveLookupId_def Let_def split: sum.splits)
  have "(a, pub, m) \<in> set (ctxMaps s)" using Some pm by (simp add: map_of_SomeD)
  then have "published_below (cur s) s \<Longrightarrow> pub < cur s"
    by (auto simp: published_below_def list_all_iff)
  then show ?thesis using s'
    by (auto simp: mapping_step_def lookups_ordered_def lookup_ordered_def)
qed

lemma mapEntries_step: "mapEntries rt cb ms srcRow out s = (r, s') \<Longrightarrow> mapping_step md s s'"
proof (induction ms arbitrary: out s)
  case Nil
  then show ?case by (simp add: mapEntries.simps)
next
  case (Cons m ms)
  note prem = Cons.prems
  show ?case
  proof (cases "\<not> truthy rt (m_col m)")
    case True
    with prem have "mapEntries rt cb ms srcRow out s = (r, s')" by (simp add: mapEntries.simps)
    then show ?thesis by (rule Cons.IH)
  next
    case col: False
    show ?thesis
    proof (cases "m_source m = ''lookup''")
      case True
      let ?fromGroup = "case m_lookup m of None \<Rightarrow> [] | Some l \<Rightarrow> l_fromGroup l"
      let ?vtype = "case m_lookup m of None \<Rightarrow> ''str''
                    | Some l \<Rightarrow> if l_valueType l = [] then ''str'' else l_valueType l"
      let ?lval = "case m_lookup m of None \<Rightarrow> JUndefined | Some l \<Rightarrow> l_value l"
      obtain r1 s1 where t: "typedGet rt cb ?vtype ?lval srcRow s = (r1, s1)"
        by (cases "typedGet rt cb ?vtype ?lval srcRow s")
      have q1: "mapping_step md s s1" using t by (intro quiet_mapping_step typedGet_quiet)
      show ?thesis
      proof (cases r1)
        case (Inl e)
        with prem col True t have "s' = s1" by (simp add: mapEntries.simps Let_def)
        then show ?thesis using q1 by simp
      next
        case (Inr val)
        obtain r2 s2 where l: "resolveLookupId rt ?fromGroup val s1 = (r2, s2)"
          by (cases "resolveLookupId rt ?fromGroup val s1")
        have q2: "mapping_step md s s2"
          using q1 resolveLookupId_step[OF l] by (rule mapping_step_trans)
        show ?thesis
        proof (cases r2)
          case (Inl e)
          with prem col True t Inr l have "s' = s2" by (simp add: mapEntries.simps Let_def)
          then show ?thesis using q2 by simp
        next
          case I2: (Inr ident)
          have "s' = s2 \<or> (\<exists>out'. mapEntries rt cb ms srcRow out' s2 = (r, s'))"
            using prem col True t Inr l I2
            by (auto simp: mapEntries.simps Let_def split: if_splits sum.splits)
          then show ?thesis using q2 Cons.IH mapping_step_trans by blast
        qed
      qed
    next
      case False
      obtain r1 s1 where t: "typedGet rt cb (if m_srcType m = [] then ''str'' else m_srcType m)
                               (m_src m) srcRow s = (r1, s1)"
        by (cases "typedGet rt cb (if m_srcType m = [] then ''str'' else m_srcType m) (m_src m) srcRow s")
      have q1: "mapping_step md s s1" using t by (intro quiet_mapping_step typedGet_quiet)
      have "s' = s1 \<or> (\<exists>out'. mapEntries rt cb ms srcRow out' s1 = (r, s'))"
        using prem col False t
        by (cases r1) (auto simp: mapEntries.simps split: if_splits sum.splits)
      then show ?thesis using q1 Cons.IH mapping_step_trans by blast
    qed
  qed
qed

lemma mapping_step_failed: "mapping_step md s s1 \<Longrightarrow> mapping_step md s (failed f s1)"
  by (simp add: mapping_step_def failed_def published_below_def)

lemma mapRow_step: "mapRow rt cb g row s = (r, s') \<Longrightarrow> mapping_step md s s'"
  by (auto simp: mapRow_def split: if_splits jsval.splits prod.splits sum.splits
           dest: mapEntries_step intro: mapping_step_failed)

lemma mapRows_step: "mapRows rt cb coe g t rows mapped s = (r, s') \<Longrightarrow> mapping_step md s s'"
proof (induction rows arbitrary: mapped s)
  case Nil
  then show ?case by (simp add: mapRows.simps)
next
  case (Cons row rows)
  obtain r1 s1 where m: "mapRow rt cb g row s = (r1, s1)" by (cases "mapRow rt cb g row s")
  have q1: "mapping_step md s s1" using m by (rule mapRow_step)
  have q2: "mapping_step md s1 (count_error t s1)" by (simp add: quiet_mapping_step)
  have "(\<exists>mp. mapRows rt cb coe g t rows mp s1 = (r, s')) \<or> s' = count_error t s1
        \<or> (\<exists>mp. mapRows rt cb coe g t rows mp (count_error t s1) = (r, s'))"
    using Cons.prems m by (cases r1) (auto simp: mapRows.simps Let_def split: if_splits)
  then show ?case using q1 q2 Cons.IH mapping_step_trans by blast
qed

lemma publishKeyMap_step: "publishKeyMap rt cb g ks a mapped s = (r, s') \<Longrightarrow> publish_step md s s'"
proof -
  assume a: "publishKeyMap rt cb g ks a mapped s = (r, s')"
  let ?keys = "if (ks_mode ks = ''byColumns'' \<and> ks_columns ks \<noteq> [])
               \<or> (ks_mode ks = ''byTemplate'' \<and> ks_template ks \<noteq> [])
            then map_err (\<lambda>r. keyOfMappedRow rt r ks) mapped else Inr []"
  show ?thesis
  proof (cases ?keys)
    case (Inl e)
    with a have "s' = s" by (simp add: publishKeyMap_def)
    then show ?thesis by simp
  next
    case (Inr keys)
    let ?sel = "if ks_mode ks = ''byColumns'' \<and> ks_columns ks \<noteq> []
                 then selectIdsByKeys rt cb g ks keys s
                 else (Inr [], warn (WarnNotByColumns a) s)"
    obtain r1 s1 where sel: "?sel = (r1, s1)" by (cases ?sel)
    have q1: "quiet md s s1"
      using sel by (auto split: if_splits dest: selectIdsByKeys_quiet)
    show ?thesis
    proof (cases r1)
      case (Inl e)
      with a Inr sel have "s' = s1" by (simp add: publishKeyMap_def)
      then show ?thesis using q1 by (simp add: quiet_publish_step)
    next
      case I2: (Inr m)
      let ?s2 = "s1\<lparr>ctxMaps := AList.update a (cur s1, m) (ctxMaps s1)\<rparr>"
      have p2: "publish_step md s ?s2"
        using q1 set_alist_update[of a "(cur s1, m)" "ctxMaps s1"]
        by (auto simp: quiet_def publish_step_def list_all_iff)
      have "s' = ?s2 \<or> (\<exists>rr. assignTypedPath cb ''flow'' (ks_returnPath ks) (JObj m) ?s2 = (rr, s'))"
        using a Inr sel I2 by (auto simp: publishKeyMap_def Let_def split: if_splits)
      then show ?thesis
        using p2 assignTypedPath_quiet quiet_publish_step publish_step_trans by blast
    qed
  qed
qed


lemma afterMapping_step:
  assumes "afterMapping rt cb cfg g t a ks mapped s = (r, s')"
  shows "publish_step (if local_txMode cfg = ''all'' then ''off'' else local_txMode cfg) s s'"
    (is "publish_step ?md s s'")
proof (cases "mapped = []")
  case True
  have "publish_step ?md s (s\<lparr>ctxMaps := AList.update a (cur s, []) (ctxMaps s)\<rparr>)"
    using set_alist_update[of a "(cur s, [])" "ctxMaps s"]
    by (auto simp: publish_step_def list_all_iff)
  moreover have "s' = s \<or> s' = s\<lparr>ctxMaps := AList.update a (cur s, []) (ctxMaps s)\<rparr>"
    using assms True by (auto simp: afterMapping_def split: option.splits if_splits)
  ultimately show ?thesis by auto
next
  case ne: False
  let ?cols = "if g_autoMap g then map JStr (map fst (hd mapped))
               else filter (truthy rt) (map m_col (g_mapping g))"
  show ?thesis
  proof (cases "?cols = []")
    case True
    with assms ne have "s' = warn (WarnNoColumns a) s" by (simp add: afterMapping_def Let_def)
    then show ?thesis by (simp add: quiet_publish_step)
  next
    case cols: False
    obtain r1 s1 where e: "execGroup rt cb cfg g t ?cols mapped s = (r1, s1)"
      by (cases "execGroup rt cb cfg g t ?cols mapped s")
    have q1: "publish_step ?md s s1" using e by (intro quiet_publish_step execGroup_quiet)
    show ?thesis
    proof (cases r1)
      case (Some err)
      with assms ne cols e have "s' = s1" by (simp add: afterMapping_def Let_def)
      then show ?thesis using q1 by simp
    next
      case None
      let ?pub = "case ks of None \<Rightarrow> (None, s1) | Some k \<Rightarrow> publishKeyMap rt cb g k a mapped s1"
      obtain r2 s2 where p: "?pub = (r2, s2)" by (cases ?pub)
      have "publish_step ?md s1 s2"
        using p by (cases ks) (auto dest: publishKeyMap_step)
      with q1 have q2: "publish_step ?md s s2" by (rule publish_step_trans)
      show ?thesis
      proof (cases r2)
        case (Some err)
        with assms ne cols e None p have "s' = s2" by (simp add: afterMapping_def Let_def)
        then show ?thesis using q2 by simp
      next
        case N2: None
        with assms ne cols e None p have "projectReturnRows rt cb g a mapped s2 = (r, s')"
          by (simp add: afterMapping_def Let_def)
        then have "publish_step ?md s2 s'" by (intro quiet_publish_step projectReturnRows_quiet)
        with q2 show ?thesis by (rule publish_step_trans)
      qed
    qed
  qed
qed

lemma published_below_mono: "published_below n s \<Longrightarrow> n \<le> m \<Longrightarrow> published_below m s"
  by (auto simp: published_below_def list_all_iff)

lemma published_below_Suc: "published_below n s \<Longrightarrow> published_below (Suc n) s"
  by (erule published_below_mono) simp

lemma processGroup_ordered:
  assumes run: "processGroup rt cb cfg gi g0 s0 = (r, s')"
    and pb: "published_below gi s0" and lo: "lookups_ordered (lookups s0)"
  shows "published_below (Suc gi) s' \<and> lookups_ordered (lookups s')
         \<and> errors (totals s0) \<le> errors (totals s')
         \<and> (local_txMode cfg = ''all'' \<longrightarrow> db_runs (trace s') = db_runs (trace s0))"
proof (cases "truthy rt (g_table g0)")
  case False
  with run have "s' = s0" by (simp add: processGroup_def)
  then show ?thesis using pb lo published_below_Suc by auto
next
  case tab: True
  let ?g = "normGroup g0"
  let ?s = "s0\<lparr>cur := gi\<rparr>"
  let ?md = "if local_txMode cfg = ''all'' then ''off'' else local_txMode cfg"
  have base: "published_below gi ?s" "lookups_ordered (lookups ?s)" "cur ?s = gi"
    "errors (totals ?s) = errors (totals s0)" "db_runs (trace ?s) = db_runs (trace s0)"
    using pb lo by (simp_all add: published_below_def)
  obtain r1 s1 where t: "typedGet rt cb (if g_sourceType ?g = [] then ''msg'' else g_sourceType ?g)
                           (g_source ?g) JNull ?s = (r1, s1)"
    by (cases "typedGet rt cb (if g_sourceType ?g = [] then ''msg'' else g_sourceType ?g)
                 (g_source ?g) JNull ?s")
  have q1: "quiet ?md ?s s1" using t by (rule typedGet_quiet)
  have b1: "published_below gi s1" "lookups_ordered (lookups s1)" "cur s1 = gi"
    "errors (totals s0) \<le> errors (totals s1)"
    "local_txMode cfg = ''all'' \<longrightarrow> db_runs (trace s1) = db_runs (trace s0)"
    using q1 base by (simp_all add: quiet_def published_below_def)
  have fin1: "published_below (Suc gi) s1 \<and> lookups_ordered (lookups s1)
         \<and> errors (totals s0) \<le> errors (totals s1)
         \<and> (local_txMode cfg = ''all'' \<longrightarrow> db_runs (trace s1) = db_runs (trace s0))"
    using b1 published_below_Suc by auto
  show ?thesis
  proof (cases r1)
    case (Inl e)
    with run tab t have "s' = s1" by (simp add: processGroup_def Let_def)
    then show ?thesis using fin1 by simp
  next
    case (Inr sourceArr)
    let ?rowsIn = "case sourceArr of JArr xs \<Rightarrow> xs | _ \<Rightarrow> []"
    show ?thesis
    proof (cases "js_String rt (g_table ?g)")
      case I: (Inl e)
      with run tab t Inr have "s' = s1" by (simp add: processGroup_def Let_def)
      then show ?thesis using fin1 by simp
    next
      case K: (Inr tkey)
      let ?akey = "if g_alias ?g \<noteq> [] then g_alias ?g else tkey"
      let ?p = "per tkey s1"
      let ?s2 = "s1\<lparr>byTable := AList.update tkey (?p\<lparr>total := total ?p + length ?rowsIn\<rparr>) (byTable s1)\<rparr>"
      let ?ks = "normKeySpec rt ?g"
      let ?s3 = "case ?ks of None \<Rightarrow> ?s2
                 | Some k \<Rightarrow> ?s2\<lparr>keySpecs := AList.update ?akey k (keySpecs ?s2)\<rparr>"
      have b3: "published_below gi ?s3" "lookups_ordered (lookups ?s3)" "cur ?s3 = gi"
        "errors (totals s0) \<le> errors (totals ?s3)"
        "local_txMode cfg = ''all'' \<longrightarrow> db_runs (trace ?s3) = db_runs (trace s0)"
        using b1 by (cases ?ks; simp add: published_below_def)+
      obtain r4 s4 where m: "mapRows rt cb (c_continueOnError cfg) ?g tkey ?rowsIn [] ?s3 = (r4, s4)"
        by (cases "mapRows rt cb (c_continueOnError cfg) ?g tkey ?rowsIn [] ?s3")
      have ms: "mapping_step ?md ?s3 s4" using m by (rule mapRows_step)
      have b4: "published_below gi s4" "lookups_ordered (lookups s4)" "cur s4 = gi"
        "errors (totals s0) \<le> errors (totals s4)"
        "local_txMode cfg = ''all'' \<longrightarrow> db_runs (trace s4) = db_runs (trace s0)"
        using ms b3 by (auto simp: mapping_step_def published_below_def)
      show ?thesis
      proof (cases r4)
        case I4: (Inl e)
        with run tab t Inr K m have "s' = s4" by (simp add: processGroup_def Let_def)
        then show ?thesis using b4 published_below_Suc by auto
      next
        case M: (Inr mapped)
        with run tab t Inr K m
        have "afterMapping rt cb cfg ?g tkey ?akey ?ks mapped s4 = (r, s')"
          by (simp add: processGroup_def Let_def)
        then have ps: "publish_step ?md s4 s'" by (rule afterMapping_step)
        have "published_below (Suc gi) s'"
          unfolding published_below_def list_all_iff
        proof
          fix e assume e: "e \<in> set (ctxMaps s')"
          with ps have "e \<in> set (ctxMaps s4) \<or> fst (snd e) = cur s4"
            by (auto simp: publish_step_def list_all_iff)
          then show "fst (snd e) < Suc gi"
            using b4(1,3) by (auto simp: published_below_def list_all_iff less_Suc_eq)
        qed
        then show ?thesis using ps b4 by (auto simp: publish_step_def)
      qed
    qed
  qed
qed

lemma processGroups_ordered:
  "processGroups rt cb cfg gi gs s = (r, s') \<Longrightarrow> published_below gi s \<Longrightarrow>
   lookups_ordered (lookups s) \<Longrightarrow>
   lookups_ordered (lookups s') \<and> errors (totals s) \<le> errors (totals s')
   \<and> (local_txMode cfg = ''all'' \<longrightarrow> db_runs (trace s') = db_runs (trace s))"
proof (induction gs arbitrary: gi s)
  case Nil
  then show ?case by (simp add: processGroups.simps)
next
  case (Cons g gs)
  obtain r1 s1 where p: "processGroup rt cb cfg gi g s = (r1, s1)"
    by (cases "processGroup rt cb cfg gi g s")
  note o1 = processGroup_ordered[OF p Cons.prems(2,3)]
  show ?case
  proof (cases r1)
    case (Some e)
    with p Cons.prems(1) have "s' = s1" by (simp add: processGroups.simps)
    then show ?thesis using o1 by simp
  next
    case None
    with p Cons.prems(1) have "processGroups rt cb cfg (Suc gi) gs s1 = (r, s')"
      by (simp add: processGroups.simps)
    from Cons.IH[OF this] o1 show ?thesis by auto
  qed
qed

lemma runPragmas_quiet: "md \<noteq> ''off'' \<Longrightarrow> quiet md s (runPragmas cb ps s)"
proof (induction ps arbitrary: s)
  case Nil
  then show ?case by (simp add: runPragmas.simps)
next
  case (Cons p ps)
  obtain r1 s1 where d: "dbRun cb p s = (r1, s1)" by (cases "dbRun cb p s")
  have q1: "quiet md s s1" using Cons.prems d by (rule dbRun_quiet)
  show ?case
  proof (cases r1)
    case None
    with d have "runPragmas cb (p # ps) s = runPragmas cb ps s1" by (simp add: runPragmas.simps)
    then show ?thesis using q1 Cons.IH[OF Cons.prems, of s1] quiet_trans by metis
  next
    case (Some e)
    with d have "runPragmas cb (p # ps) s = warn (WarnPragma e) s1" by (simp add: runPragmas.simps)
    then show ?thesis using q1 quiet_warn[of md s1] quiet_trans by metis
  qed
qed

lemma runPragmas_runs:
  "set (db_runs (trace (runPragmas cb ps s))) \<subseteq> set (db_runs (trace s)) \<union> set ps"
proof (induction ps arbitrary: s)
  case Nil
  then show ?case by (simp add: runPragmas.simps)
next
  case (Cons p ps)
  obtain r1 s1 where d: "dbRun cb p s = (r1, s1)" by (cases "dbRun cb p s")
  then have t1: "db_runs (trace s1) = db_runs (trace s) @ [p]"
    by (auto simp: dbRun_def called_def split: prod.splits)
  show ?case
  proof (cases r1)
    case None
    with d have "runPragmas cb (p # ps) s = runPragmas cb ps s1" by (simp add: runPragmas.simps)
    then show ?thesis using Cons.IH[of s1] t1 by auto
  next
    case (Some e)
    with d have "runPragmas cb (p # ps) s = warn (WarnPragma e) s1" by (simp add: runPragmas.simps)
    then show ?thesis using t1 by (auto simp: warn_def)
  qed
qed

lemma pragma_statements_prefix: "p \<in> set (pragma_statements rt cfg) \<Longrightarrow> take 7 p = ''PRAGMA ''"
  by (auto simp: pragma_statements_def split: if_splits)

text \<open>
  What holds of the final state of every run: the recorded reads of \<open>ctxMaps\<close> are
  ordered; and under \<open>txMode = all\<close> the only statements given to \<open>db.run\<close> are the
  PRAGMA statements and one \<open>BEGIN\<close>, which is there, before the close of the
  connection, whenever a summary is sent.
\<close>

lemma run_invariants:
  assumes "run rt cb ty p cfg w = (out, s)"
  shows "lookups_ordered (lookups s)
       \<and> (local_txMode cfg = ''all'' \<longrightarrow>
            set (db_runs (trace s)) \<subseteq> insert ''BEGIN'' (set (pragma_statements rt cfg))
            \<and> (\<forall>sm. out = Sent sm \<longrightarrow>
                  ''BEGIN'' \<in> set (db_runs (trace s)) \<and> last (trace s) = DbClose))"
proof -
  let ?i = "init_state w :: ('a, 'b) state"
  let ?P = "set (pragma_statements rt cfg)"
  obtain r0 s0 where t: "typedGet rt cb (if ty = [] then ''str'' else ty) p JNull ?i = (r0, s0)"
    by (cases "typedGet rt cb (if ty = [] then ''str'' else ty) p JNull ?i")
  have q0: "quiet ''off'' ?i s0" using t by (rule typedGet_quiet)
  have i0: "published_below 0 ?i" "lookups_ordered (lookups ?i)" "db_runs (trace ?i) = []"
    by (simp_all add: init_state_def published_below_def lookups_ordered_def)
  have b0: "published_below 0 s0" "lookups_ordered (lookups s0)" "db_runs (trace s0) = []"
    using q0 i0 by (simp_all add: quiet_def published_below_def)
  have fin0: "lookups_ordered (lookups s0)
       \<and> (local_txMode cfg = ''all'' \<longrightarrow> set (db_runs (trace s0)) \<subseteq> insert ''BEGIN'' ?P)"
    using b0 by simp
  show ?thesis
  proof (cases r0)
    case (Inl e)
    with assms t have "s = s0 \<and> out = Failed e" by (auto simp: run_def)
    then show ?thesis using fin0 by simp
  next
    case (Inr pv)
    show ?thesis
    proof (cases "\<exists>path. pv = JStr path \<and> path \<noteq> []")
      case False
      with assms t Inr have "s = s0 \<and> out = Failed ErrInvalidDbPath"
        by (cases pv) (auto simp: run_def)
      then show ?thesis using fin0 by simp
    next
      case True
      then obtain path where pv: "pv = JStr path" "path \<noteq> []" by blast
      let ?s1 = "runPragmas cb (pragma_statements rt cfg) (called (DbOpen path) (world s0) s0)"
      have q1: "quiet ''on'' s0 ?s1"
        using quiet_called(1)[of "''on''" s0 path "world s0"]
          runPragmas_quiet[of "''on''" "called (DbOpen path) (world s0) s0" cb "pragma_statements rt cfg"]
          quiet_trans by blast
      have r1: "set (db_runs (trace ?s1)) \<subseteq> ?P"
        using runPragmas_runs[of cb "pragma_statements rt cfg" "called (DbOpen path) (world s0) s0"] b0(3)
        by (simp add: called_def)
      let ?b = "if local_txMode cfg = ''all'' then beginTx cb ''all'' ?s1 else (None, ?s1)"
      obtain r2 s2 where b: "?b = (r2, s2)" by (cases ?b)
      have q2: "quiet ''on'' ?s1 s2"
        using b dbRun_quiet[of "''on''" cb "''BEGIN''" ?s1 r2 s2]
        by (auto simp: beginTx_def split: if_splits)
      have r2: "local_txMode cfg = ''all'' \<longrightarrow> db_runs (trace s2) = db_runs (trace ?s1) @ [''BEGIN'']"
        using b by (auto simp: beginTx_def dbRun_def called_def split: prod.splits)
      have b2: "published_below 0 s2" "lookups_ordered (lookups s2)"
        using q1 q2 b0 by (simp_all add: quiet_def published_below_def)
      show ?thesis
      proof (cases r2)
        case (Some e)
        with assms t Inr pv b have se: "s = s2 \<and> out = Failed e" by (auto simp: run_def Let_def)
        have "local_txMode cfg = ''all'' \<longrightarrow> set (db_runs (trace s2)) \<subseteq> insert ''BEGIN'' ?P"
        proof
          assume "local_txMode cfg = ''all''"
          with r2 have "set (db_runs (trace s2)) = insert ''BEGIN'' (set (db_runs (trace ?s1)))"
            by simp
          then show "set (db_runs (trace s2)) \<subseteq> insert ''BEGIN'' ?P" using r1 by blast
        qed
        then show ?thesis using se b2 by simp
      next
        case None
        obtain r3 s3 where g: "processGroups rt cb cfg 0 (c_groups cfg) s2 = (r3, s3)"
          by (cases "processGroups rt cb cfg 0 (c_groups cfg) s2")
        note o3 = processGroups_ordered[OF g b2]
        have r3: "local_txMode cfg = ''all'' \<longrightarrow> db_runs (trace s3) = db_runs (trace ?s1) @ [''BEGIN'']"
          using o3 r2 by simp
        have A: "local_txMode cfg = ''all'' \<longrightarrow>
              set (db_runs (trace s3)) \<subseteq> insert ''BEGIN'' ?P
              \<and> ''BEGIN'' \<in> set (db_runs (trace s3))"
        proof
          assume all: "local_txMode cfg = ''all''"
          with r3 have "set (db_runs (trace s3)) = insert ''BEGIN'' (set (db_runs (trace ?s1)))"
            by simp
          then show "set (db_runs (trace s3)) \<subseteq> insert ''BEGIN'' ?P
              \<and> ''BEGIN'' \<in> set (db_runs (trace s3))"
            using r1 by blast
        qed
        have C: "db_runs (trace (called DbClose (world s3) s3)) = db_runs (trace s3)"
          "last (trace (called DbClose (world s3) s3)) = DbClose"
          "lookups (called DbClose (world s3) s3) = lookups s3"
          by (simp_all add: called_def)
        have "(s = s3 \<and> (\<exists>e. out = Failed e))
              \<or> (s = called DbClose (world s3) s3 \<and> (\<exists>sm. out = Sent sm))"
          using assms t Inr pv b None g by (cases r3) (auto simp: run_def Let_def)
        then show ?thesis
        proof
          assume "s = s3 \<and> (\<exists>e. out = Failed e)"
          then show ?thesis using o3 A by auto
        next
          assume "s = called DbClose (world s3) s3 \<and> (\<exists>sm. out = Sent sm)"
          then show ?thesis using o3 A C by auto
        qed
      qed
    qed
  qed
qed

text \<open>
  Under \<open>txMode = all\<close> no run gives \<open>COMMIT\<close> or \<open>ROLLBACK\<close> to \<open>db.run\<close>, whatever the
  collaborators answer.
\<close>

lemma whole_run_never_commits:
  assumes "local_txMode cfg = ''all''" and "run rt cb ty p cfg w = (out, s)"
  shows "''COMMIT'' \<notin> set (db_runs (trace s)) \<and> ''ROLLBACK'' \<notin> set (db_runs (trace s))"
proof -
  have sub: "set (db_runs (trace s)) \<subseteq> insert ''BEGIN'' (set (pragma_statements rt cfg))"
    using run_invariants[OF assms(2)] assms(1) by simp
  have "''COMMIT'' \<notin> set (pragma_statements rt cfg)"
    using pragma_statements_prefix[of "''COMMIT''" rt cfg] by auto
  moreover have "''ROLLBACK'' \<notin> set (pragma_statements rt cfg)"
    using pragma_statements_prefix[of "''ROLLBACK''" rt cfg] by auto
  ultimately show ?thesis using sub by auto
qed

text \<open>
  C4. In every run, whatever its outcome, every read of \<open>ctxMaps\<close> made by lookup
  resolution while the rows of the group of index \<open>i\<close> are mapped, and that finds an
  entry, finds one stored by a group of index \<open>j < i\<close>: a group sees neither its own map
  nor the map of a later group.
\<close>

theorem lookups_see_only_earlier_groups:
  assumes "run rt cb ty p cfg w = (out, s)"
  shows "\<forall>i a j. (i, a, Some j) \<in> set (lookups s) \<longrightarrow> j < i"
proof -
  have "lookups_ordered (lookups s)" using run_invariants[OF assms] by simp
  then show ?thesis
    by (auto simp: lookups_ordered_def lookup_ordered_def list_all_iff)
qed

lemma run_keyed_lookup:
  "(case run x_rt x_collab ''str'' (JStr ''db'') (x_config ''perTable'' False [x_T_keyed, x_U True])
             [x_rows ''a'' [''x''], x_rows ''b'' [''x'']] of
      (out, s) \<Rightarrow>
        ctxMaps s = [(''T'', 0, [(''x'', JNum (Fin 1))])] \<and> lookups s = [(1, ''T'', Some 0)])"
  by code_simp


theorem lookups_see_only_earlier_groups_witness:
  "lookups (snd (run x_rt x_collab ''str'' (JStr ''db'') (x_config ''perTable'' False [x_T_keyed, x_U True])
             [x_rows ''a'' [''x''], x_rows ''b'' [''x'']])) = [(1, ''T'', Some 0)]
   \<and> (0 :: nat) < 1"
proof -
  let ?r = "run x_rt x_collab ''str'' (JStr ''db'') (x_config ''perTable'' False [x_T_keyed, x_U True])
             [x_rows ''a'' [''x''], x_rows ''b'' [''x'']]"
  have l: "lookups (snd ?r) = [(1, ''T'', Some 0)]"
    using run_keyed_lookup by (simp split: prod.splits)
  have "?r = (fst ?r, snd ?r)" by simp
  from lookups_see_only_earlier_groups[OF this, rule_format, of 1 "''T''" 0] l
  show ?thesis by simp
qed

section \<open>The summary\<close>

text \<open>
  What a call leaves of the counters and of the record of failures. The calls on the
  connection, the typed reads and writes and the loop of \<open>mapRow\<close> over the mapping
  entries change neither; a throw of \<open>mapRow\<close> and a rejection of \<open>stmt.run\<close> add one
  failure and leave the counters.
\<close>

lemma typedGet_kept:
  "typedGet rt cb ty v rc s = (r, s') \<Longrightarrow> totals s' = totals s \<and> failures s' = failures s"
proof -
  have "totals (snd (typedGet rt cb ty v rc s)) = totals s
        \<and> failures (snd (typedGet rt cb ty v rc s)) = failures s"
    by (simp add: typedGet_def warn_def split: prod.split sum.split)
  then show "typedGet rt cb ty v rc s = (r, s') \<Longrightarrow> totals s' = totals s \<and> failures s' = failures s"
    by simp
qed

lemma resolveLookupId_kept:
  "resolveLookupId rt a p s = (r, s') \<Longrightarrow> totals s' = totals s \<and> failures s' = failures s"
proof -
  have "totals (snd (resolveLookupId rt a p s)) = totals s
        \<and> failures (snd (resolveLookupId rt a p s)) = failures s"
    by (simp add: resolveLookupId_def warn_def Let_def split: option.split prod.split sum.split)
  then show "resolveLookupId rt a p s = (r, s') \<Longrightarrow> totals s' = totals s \<and> failures s' = failures s"
    by simp
qed

lemma mapEntries_kept:
  "mapEntries rt cb ms srcRow out s = (r, s') \<Longrightarrow> totals s' = totals s \<and> failures s' = failures s"
proof (induction ms arbitrary: out s)
  case Nil
  then show ?case by (simp add: mapEntries.simps)
next
  case (Cons m ms)
  note prem = Cons.prems
  show ?case
  proof (cases "\<not> truthy rt (m_col m)")
    case True
    with prem have "mapEntries rt cb ms srcRow out s = (r, s')" by (simp add: mapEntries.simps)
    then show ?thesis by (rule Cons.IH)
  next
    case col: False
    show ?thesis
    proof (cases "m_source m = ''lookup''")
      case True
      let ?fromGroup = "case m_lookup m of None \<Rightarrow> [] | Some l \<Rightarrow> l_fromGroup l"
      let ?vtype = "case m_lookup m of None \<Rightarrow> ''str''
                    | Some l \<Rightarrow> if l_valueType l = [] then ''str'' else l_valueType l"
      let ?lval = "case m_lookup m of None \<Rightarrow> JUndefined | Some l \<Rightarrow> l_value l"
      obtain r1 s1 where t: "typedGet rt cb ?vtype ?lval srcRow s = (r1, s1)"
        by (cases "typedGet rt cb ?vtype ?lval srcRow s")
      have q1: "totals s1 = totals s \<and> failures s1 = failures s" using t by (rule typedGet_kept)
      show ?thesis
      proof (cases r1)
        case (Inl e)
        with prem col True t have "s' = s1" by (simp add: mapEntries.simps Let_def)
        then show ?thesis using q1 by simp
      next
        case (Inr val)
        obtain r2 s2 where l: "resolveLookupId rt ?fromGroup val s1 = (r2, s2)"
          by (cases "resolveLookupId rt ?fromGroup val s1")
        have q2: "totals s2 = totals s \<and> failures s2 = failures s"
          using q1 resolveLookupId_kept[OF l] by simp
        show ?thesis
        proof (cases r2)
          case (Inl e)
          with prem col True t Inr l have "s' = s2" by (simp add: mapEntries.simps Let_def)
          then show ?thesis using q2 by simp
        next
          case I2: (Inr ident)
          have "s' = s2 \<or> (\<exists>out'. mapEntries rt cb ms srcRow out' s2 = (r, s'))"
            using prem col True t Inr l I2
            by (auto simp: mapEntries.simps Let_def split: if_splits sum.splits)
          then show ?thesis using q2 Cons.IH by auto
        qed
      qed
    next
      case False
      obtain r1 s1 where t: "typedGet rt cb (if m_srcType m = [] then ''str'' else m_srcType m)
                               (m_src m) srcRow s = (r1, s1)"
        by (cases "typedGet rt cb (if m_srcType m = [] then ''str'' else m_srcType m) (m_src m) srcRow s")
      have q1: "totals s1 = totals s \<and> failures s1 = failures s" using t by (rule typedGet_kept)
      have "s' = s1 \<or> (\<exists>out'. mapEntries rt cb ms srcRow out' s1 = (r, s'))"
        using prem col False t
        by (cases r1) (auto simp: mapEntries.simps split: if_splits sum.splits)
      then show ?thesis using q1 Cons.IH by auto
    qed
  qed
qed

lemma mapRow_failure:
  "mapRow rt cb g row s = (r, s') \<Longrightarrow>
   totals s' = totals s
   \<and> failures s' = failures s @ (case r of Inl e \<Rightarrow> [MapFailed row e] | Inr out \<Rightarrow> [])"
  by (auto simp: mapRow_def failed_def split: if_splits jsval.splits prod.splits sum.splits
           dest: mapEntries_kept)

lemma mapRow_totals: "mapRow rt cb g row s = (r, s') \<Longrightarrow> totals s' = totals s"
  by (drule mapRow_failure) simp

lemma stmtRun_failure:
  "stmtRun cb sql ps s = (r, s') \<Longrightarrow>
   totals s' = totals s
   \<and> failures s' = failures s @ (case r of None \<Rightarrow> [] | Some e \<Rightarrow> [ExecFailed sql ps e])"
  by (auto simp: stmtRun_def called_def failed_def split: prod.splits option.splits)

lemma stmtRun_totals: "stmtRun cb sql ps s = (r, s') \<Longrightarrow> totals s' = totals s"
  by (drule stmtRun_failure) simp

text \<open>
  Under \<open>continueOnError\<close> the two loops over rows always return normally, and every
  row is counted: the mapping loop adds one error for each source row that yields no
  mapped row, and the execution loop counts each row of a chunk once, as inserted,
  updated or failed.
\<close>

lemma count_error_errors [simp]: "errors (totals (count_error t s)) = Suc (errors (totals s))"
  by (simp add: count_error_def)

lemma mapRows_counts_failures:
  "mapRows rt cb True g t rows mapped s = (r, s') \<Longrightarrow>
   \<exists>mapped'. r = Inr mapped'
     \<and> errors (totals s') + length mapped' = errors (totals s) + length mapped + length rows"
proof (induction rows arbitrary: mapped s)
  case Nil
  then show ?case by (auto simp: mapRows.simps)
next
  case (Cons row rows)
  obtain r1 s1 where m: "mapRow rt cb g row s = (r1, s1)" by (cases "mapRow rt cb g row s")
  have q1: "totals s1 = totals s" using m by (rule mapRow_totals)
  show ?case
  proof (cases r1)
    case (Inr mr)
    with Cons.prems m have "mapRows rt cb True g t rows (mapped @ [mr]) s1 = (r, s')"
      by (simp add: mapRows.simps)
    from Cons.IH[OF this] q1 show ?thesis by auto
  next
    case (Inl e)
    with Cons.prems m have "mapRows rt cb True g t rows mapped (count_error t s1) = (r, s')"
      by (simp add: mapRows.simps Let_def)
    from Cons.IH[OF this] q1 show ?thesis by auto
  qed
qed

lemma counted_steps [simp]:
  "counted (count_error t s) = Suc (counted s)"
  "counted (count_success c t s) = Suc (counted s)"
  by (simp_all add: counted_def count_error_def count_success_def)

lemma runRows_counts_failures:
  "runRows rt cb True g t sql cols ch s = (r, s') \<Longrightarrow>
   r = None \<and> counted s' = counted s + length ch"
proof (induction ch arbitrary: s)
  case Nil
  then show ?case by (simp add: runRows.simps)
next
  case (Cons a ch)
  obtain r1 s1 where st: "stmtRun cb sql (map (param_of rt a) cols) s = (r1, s1)"
    by (cases "stmtRun cb sql (map (param_of rt a) cols) s")
  have q1: "counted s1 = counted s" using stmtRun_totals[OF st] by (simp add: counted_def)
  show ?case
  proof (cases r1)
    case None
    with Cons.prems st
    have "runRows rt cb True g t sql cols ch (count_success (g_conflict g) t s1) = (r, s')"
      by (simp add: runRows.simps)
    from Cons.IH[OF this] q1 show ?thesis by simp
  next
    case (Some e)
    with Cons.prems st
    have "runRows rt cb True g t sql cols ch (count_error t s1) = (r, s')"
      by (simp add: runRows.simps Let_def)
    from Cons.IH[OF this] q1 show ?thesis by simp
  qed
qed

text \<open>
  Every step of the handler is balanced: the two loops over rows count each failure at
  the place where they catch it, and nothing else changes the error counter or meets a
  failure of a row.
\<close>

lemma balanced_refl [simp]: "balanced s s"
  by (simp add: balanced_def)

lemma balanced_trans: "balanced s s1 \<Longrightarrow> balanced s1 s2 \<Longrightarrow> balanced s s2"
  by (simp add: balanced_def)

lemma balanced_simps [simp]:
  "balanced s (called c w s)" "balanced s (warn x s)" "balanced s (s\<lparr>world := w\<rparr>)"
  "balanced s (count_success cf t s)" "balanced s (s\<lparr>cur := n\<rparr>)"
  "balanced s (s\<lparr>ctxMaps := cm\<rparr>)" "balanced s (s\<lparr>keySpecs := ksp\<rparr>)"
  "balanced s (s\<lparr>byTable := bt\<rparr>)"
  by (simp_all add: balanced_def called_def warn_def count_success_def)

lemma dbRun_balanced: "dbRun cb sql s = (r, s') \<Longrightarrow> balanced s s'"
  by (auto simp: dbRun_def split: prod.splits)

lemma dbPrepare_balanced: "dbPrepare cb sql s = (r, s') \<Longrightarrow> balanced s s'"
  by (auto simp: dbPrepare_def split: prod.splits)

lemma dbFinalize_balanced: "dbFinalize cb sql s = (r, s') \<Longrightarrow> balanced s s'"
  by (auto simp: dbFinalize_def split: prod.splits)

lemma dbAll_balanced: "dbAll cb sql ps s = (r, s') \<Longrightarrow> balanced s s'"
  by (auto simp: dbAll_def split: prod.splits)

lemma beginTx_balanced: "beginTx cb md s = (r, s') \<Longrightarrow> balanced s s'"
  by (auto simp: beginTx_def dest: dbRun_balanced split: if_splits)

lemma commitTx_balanced: "commitTx cb md s = (r, s') \<Longrightarrow> balanced s s'"
  by (auto simp: commitTx_def dest: dbRun_balanced split: if_splits)

lemma rollbackTx_balanced [simp]: "balanced s (rollbackTx cb md s)"
  by (cases "dbRun cb ''ROLLBACK'' s") (auto simp: rollbackTx_def dest: dbRun_balanced)

lemma typedGet_balanced: "typedGet rt cb ty v rc s = (r, s') \<Longrightarrow> balanced s s'"
  by (drule typedGet_kept) (simp add: balanced_def)

lemma assignTypedPath_balanced: "assignTypedPath cb ty p v s = (r, s') \<Longrightarrow> balanced s s'"
  by (auto simp: assignTypedPath_def split: if_splits prod.splits)

lemma mapRows_balanced: "mapRows rt cb coe g t rows mapped s = (r, s') \<Longrightarrow> balanced s s'"
proof (induction rows arbitrary: mapped s)
  case Nil
  then show ?case by (simp add: mapRows.simps)
next
  case (Cons row rows)
  obtain r1 s1 where m: "mapRow rt cb g row s = (r1, s1)" by (cases "mapRow rt cb g row s")
  note f = mapRow_failure[OF m]
  show ?case
  proof (cases r1)
    case (Inr mr)
    with f have q1: "balanced s s1" by (simp add: balanced_def)
    from Inr Cons.prems m have "mapRows rt cb coe g t rows (mapped @ [mr]) s1 = (r, s')"
      by (simp add: mapRows.simps)
    from q1 Cons.IH[OF this] show ?thesis by (rule balanced_trans)
  next
    case (Inl e)
    with f have q1: "balanced s (count_error t s1)"
      by (simp add: balanced_def count_error_def)
    have "s' = count_error t s1 \<or> mapRows rt cb coe g t rows mapped (count_error t s1) = (r, s')"
      using Inl Cons.prems m by (auto simp: mapRows.simps Let_def split: if_splits)
    then show ?thesis using q1 Cons.IH balanced_trans by blast
  qed
qed

lemma runRows_balanced: "runRows rt cb coe g t sql cols ch s = (r, s') \<Longrightarrow> balanced s s'"
proof (induction ch arbitrary: s)
  case Nil
  then show ?case by (simp add: runRows.simps)
next
  case (Cons a ch)
  obtain r1 s1 where st: "stmtRun cb sql (map (param_of rt a) cols) s = (r1, s1)"
    by (cases "stmtRun cb sql (map (param_of rt a) cols) s")
  note f = stmtRun_failure[OF st]
  show ?case
  proof (cases r1)
    case None
    with f have q1: "balanced s (count_success (g_conflict g) t s1)"
      by (simp add: balanced_def count_success_def)
    from None Cons.prems st
    have "runRows rt cb coe g t sql cols ch (count_success (g_conflict g) t s1) = (r, s')"
      by (simp add: runRows.simps)
    from q1 Cons.IH[OF this] show ?thesis by (rule balanced_trans)
  next
    case (Some e)
    with f have q1: "balanced s (count_error t s1)"
      by (simp add: balanced_def count_error_def)
    have "s' = count_error t s1 \<or> runRows rt cb coe g t sql cols ch (count_error t s1) = (r, s')"
      using Some Cons.prems st by (auto simp: runRows.simps Let_def split: if_splits)
    then show ?thesis using q1 Cons.IH balanced_trans by blast
  qed
qed

lemma chunkBody_balanced: "chunkBody rt cb coe txm g t cols ch s = (r, s') \<Longrightarrow> balanced s s'"
proof -
  assume a: "chunkBody rt cb coe txm g t cols ch s = (r, s')"
  show ?thesis
  proof (cases "buildInsertSQL rt g cols")
    case (Inl e)
    with a have "s' = s" by (simp add: chunkBody_def)
    then show ?thesis by simp
  next
    case (Inr sql)
    obtain r1 s1 where p: "dbPrepare cb sql s = (r1, s1)" by (cases "dbPrepare cb sql s")
    have q1: "balanced s s1" using p by (rule dbPrepare_balanced)
    show ?thesis
    proof (cases r1)
      case (Some e)
      with a Inr p have "s' = s1" by (simp add: chunkBody_def)
      then show ?thesis using q1 by simp
    next
      case None
      obtain r2 s2 where rr: "runRows rt cb coe g t sql cols ch s1 = (r2, s2)"
        by (cases "runRows rt cb coe g t sql cols ch s1")
      have q2: "balanced s s2" using q1 runRows_balanced[OF rr] by (rule balanced_trans)
      show ?thesis
      proof (cases r2)
        case (Some e)
        with a Inr p None rr have "s' = s2" by (simp add: chunkBody_def)
        then show ?thesis using q2 by simp
      next
        case N2: None
        obtain r3 s3 where f: "dbFinalize cb sql s2 = (r3, s3)" by (cases "dbFinalize cb sql s2")
        have q3: "balanced s s3" using q2 dbFinalize_balanced[OF f] by (rule balanced_trans)
        have "s' = s3 \<or> commitTx cb txm s3 = (r, s')"
          using a Inr p None rr N2 f by (cases r3) (auto simp: chunkBody_def)
        then show ?thesis using q3 commitTx_balanced balanced_trans by blast
      qed
    qed
  qed
qed

lemma execChunk_balanced:
  assumes "execChunk rt cb coe txm g t cols ch s = (r, s')"
  shows "balanced s s'"
proof (cases "beginTx cb txm s")
  case (Pair r1 s1)
  have q1: "balanced s s1" using Pair by (rule beginTx_balanced)
  show ?thesis
  proof (cases r1)
    case (Some e)
    with Pair assms have "s' = s1" by (simp add: execChunk_def)
    then show ?thesis using q1 by simp
  next
    case None
    show ?thesis
    proof (cases "chunkBody rt cb coe txm g t cols ch s1")
      case P2: (Pair r2 s2)
      have q2: "balanced s1 s2" using P2 by (rule chunkBody_balanced)
      have q3: "balanced s2 (rollbackTx cb txm s2)" by simp
      have "s' = s2 \<or> s' = rollbackTx cb txm s2"
        using assms Pair None P2 by (cases r2) (auto simp: execChunk_def Let_def split: if_splits)
      then show ?thesis using q1 q2 q3 balanced_trans by blast
    qed
  qed
qed

lemma execChunks_balanced: "execChunks rt cb coe txm g t cols chs s = (r, s') \<Longrightarrow> balanced s s'"
proof (induction chs arbitrary: s)
  case Nil
  then show ?case by (simp add: execChunks.simps)
next
  case (Cons ch chs)
  show ?case
  proof (cases "execChunk rt cb coe txm g t cols ch s")
    case (Pair r1 s1)
    have q1: "balanced s s1" using Pair by (rule execChunk_balanced)
    show ?thesis
    proof (cases r1)
      case None
      with Pair Cons.prems have "execChunks rt cb coe txm g t cols chs s1 = (r, s')"
        by (simp add: execChunks.simps)
      from Cons.IH[OF this] q1 show ?thesis by (rule balanced_trans[rotated])
    next
      case (Some e)
      with Pair Cons.prems have "s' = s1" by (simp add: execChunks.simps)
      then show ?thesis using q1 by simp
    qed
  qed
qed

lemma execGroup_balanced: "execGroup rt cb cfg g t cols mapped s = (r, s') \<Longrightarrow> balanced s s'"
  unfolding execGroup_def Let_def
  by (auto split: option.splits dest: execChunks_balanced)

lemma selectChunks_balanced: "selectChunks rt cb i e t chs out s = (r, s') \<Longrightarrow> balanced s s'"
proof (induction chs arbitrary: s out)
  case Nil
  then show ?case by (simp add: selectChunks.simps)
next
  case (Cons ch chs)
  let ?sql = "''SELECT '' @ i @ '' AS id, ('' @ e @ '') AS _k FROM '' @ t
                @ '' WHERE ('' @ e @ '') IN ('' @ join_with '', '' (map (\<lambda>_. ''?'') ch) @ '')''"
  show ?case
  proof (cases "dbAll cb ?sql (map JStr ch) s")
    case (Pair r1 s1)
    have q1: "balanced s s1" using Pair by (rule dbAll_balanced)
    show ?thesis
    proof (cases r1)
      case (Inl err)
      with Pair Cons.prems have "s' = s1" by (simp add: selectChunks.simps Let_def)
      then show ?thesis using q1 by simp
    next
      case (Inr rows)
      show ?thesis
      proof (cases "set_rows rt rows out")
        case (Inl err)
        with Inr Pair Cons.prems have "s' = s1" by (simp add: selectChunks.simps Let_def)
        then show ?thesis using q1 by simp
      next
        case (Inr out')
        with \<open>r1 = Inr rows\<close> Pair Cons.prems
        have "selectChunks rt cb i e t chs out' s1 = (r, s')"
          by (simp add: selectChunks.simps Let_def)
        from Cons.IH[OF this] q1 show ?thesis by (rule balanced_trans[rotated])
      qed
    qed
  qed
qed

lemma selectIdsByKeys_balanced: "selectIdsByKeys rt cb g sp keys s = (r, s') \<Longrightarrow> balanced s s'"
  unfolding selectIdsByKeys_def
  by (auto split: if_splits sum.splits option.splits dest: selectChunks_balanced)

lemma projectReturnRows_balanced: "projectReturnRows rt cb g a mapped s = (r, s') \<Longrightarrow> balanced s s'"
  unfolding projectReturnRows_def
  by (auto split: if_splits sum.splits option.splits prod.splits
           dest!: selectIdsByKeys_balanced assignTypedPath_balanced simp: balanced_def warn_def)

lemma publishKeyMap_balanced: "publishKeyMap rt cb g ks a mapped s = (r, s') \<Longrightarrow> balanced s s'"
proof -
  assume a: "publishKeyMap rt cb g ks a mapped s = (r, s')"
  let ?keys = "if (ks_mode ks = ''byColumns'' \<and> ks_columns ks \<noteq> [])
               \<or> (ks_mode ks = ''byTemplate'' \<and> ks_template ks \<noteq> [])
            then map_err (\<lambda>r. keyOfMappedRow rt r ks) mapped else Inr []"
  show ?thesis
  proof (cases ?keys)
    case (Inl e)
    with a have "s' = s" by (simp add: publishKeyMap_def)
    then show ?thesis by simp
  next
    case (Inr keys)
    let ?sel = "if ks_mode ks = ''byColumns'' \<and> ks_columns ks \<noteq> []
                 then selectIdsByKeys rt cb g ks keys s
                 else (Inr [], warn (WarnNotByColumns a) s)"
    obtain r1 s1 where sel: "?sel = (r1, s1)" by (cases ?sel)
    have q1: "balanced s s1"
      using sel by (auto split: if_splits dest: selectIdsByKeys_balanced)
    show ?thesis
    proof (cases r1)
      case (Inl e)
      with a Inr sel have "s' = s1" by (simp add: publishKeyMap_def)
      then show ?thesis using q1 by simp
    next
      case I2: (Inr m)
      let ?s2 = "s1\<lparr>ctxMaps := AList.update a (cur s1, m) (ctxMaps s1)\<rparr>"
      have p2: "balanced s ?s2" using q1 by (simp add: balanced_def)
      have "s' = ?s2 \<or> (\<exists>rr. assignTypedPath cb ''flow'' (ks_returnPath ks) (JObj m) ?s2 = (rr, s'))"
        using a Inr sel I2 by (auto simp: publishKeyMap_def Let_def split: if_splits)
      then show ?thesis
        using p2 assignTypedPath_balanced balanced_trans by blast
    qed
  qed
qed

lemma afterMapping_balanced:
  assumes "afterMapping rt cb cfg g t a ks mapped s = (r, s')"
  shows "balanced s s'"
proof (cases "mapped = []")
  case True
  have "s' = s \<or> s' = s\<lparr>ctxMaps := AList.update a (cur s, []) (ctxMaps s)\<rparr>"
    using assms True by (auto simp: afterMapping_def split: option.splits if_splits)
  then show ?thesis by auto
next
  case ne: False
  let ?cols = "if g_autoMap g then map JStr (map fst (hd mapped))
               else filter (truthy rt) (map m_col (g_mapping g))"
  show ?thesis
  proof (cases "?cols = []")
    case True
    with assms ne have "s' = warn (WarnNoColumns a) s" by (simp add: afterMapping_def Let_def)
    then show ?thesis by simp
  next
    case cols: False
    obtain r1 s1 where e: "execGroup rt cb cfg g t ?cols mapped s = (r1, s1)"
      by (cases "execGroup rt cb cfg g t ?cols mapped s")
    have q1: "balanced s s1" using e by (rule execGroup_balanced)
    show ?thesis
    proof (cases r1)
      case (Some err)
      with assms ne cols e have "s' = s1" by (simp add: afterMapping_def Let_def)
      then show ?thesis using q1 by simp
    next
      case None
      let ?pub = "case ks of None \<Rightarrow> (None, s1) | Some k \<Rightarrow> publishKeyMap rt cb g k a mapped s1"
      obtain r2 s2 where p: "?pub = (r2, s2)" by (cases ?pub)
      have "balanced s1 s2"
        using p by (cases ks) (auto dest: publishKeyMap_balanced)
      with q1 have q2: "balanced s s2" by (rule balanced_trans)
      show ?thesis
      proof (cases r2)
        case (Some err)
        with assms ne cols e None p have "s' = s2" by (simp add: afterMapping_def Let_def)
        then show ?thesis using q2 by simp
      next
        case N2: None
        with assms ne cols e None p have "projectReturnRows rt cb g a mapped s2 = (r, s')"
          by (simp add: afterMapping_def Let_def)
        then have "balanced s2 s'" by (rule projectReturnRows_balanced)
        with q2 show ?thesis by (rule balanced_trans)
      qed
    qed
  qed
qed

lemma processGroup_balanced:
  assumes run: "processGroup rt cb cfg gi g0 s0 = (r, s')"
  shows "balanced s0 s'"
proof (cases "truthy rt (g_table g0)")
  case False
  with run have "s' = s0" by (simp add: processGroup_def)
  then show ?thesis by simp
next
  case tab: True
  let ?g = "normGroup g0"
  let ?s = "s0\<lparr>cur := gi\<rparr>"
  obtain r1 s1 where t: "typedGet rt cb (if g_sourceType ?g = [] then ''msg'' else g_sourceType ?g)
                           (g_source ?g) JNull ?s = (r1, s1)"
    by (cases "typedGet rt cb (if g_sourceType ?g = [] then ''msg'' else g_sourceType ?g)
                 (g_source ?g) JNull ?s")
  have "balanced ?s s1" using t by (rule typedGet_balanced)
  then have q1: "balanced s0 s1" by (simp add: balanced_def)
  show ?thesis
  proof (cases r1)
    case (Inl e)
    with run tab t have "s' = s1" by (simp add: processGroup_def Let_def)
    then show ?thesis using q1 by simp
  next
    case (Inr sourceArr)
    let ?rowsIn = "case sourceArr of JArr xs \<Rightarrow> xs | _ \<Rightarrow> []"
    show ?thesis
    proof (cases "js_String rt (g_table ?g)")
      case I: (Inl e)
      with run tab t Inr have "s' = s1" by (simp add: processGroup_def Let_def)
      then show ?thesis using q1 by simp
    next
      case K: (Inr tkey)
      let ?akey = "if g_alias ?g \<noteq> [] then g_alias ?g else tkey"
      let ?p = "per tkey s1"
      let ?s2 = "s1\<lparr>byTable := AList.update tkey (?p\<lparr>total := total ?p + length ?rowsIn\<rparr>) (byTable s1)\<rparr>"
      let ?ks = "normKeySpec rt ?g"
      let ?s3 = "case ?ks of None \<Rightarrow> ?s2
                 | Some k \<Rightarrow> ?s2\<lparr>keySpecs := AList.update ?akey k (keySpecs ?s2)\<rparr>"
      have q3: "balanced s0 ?s3" using q1 by (cases ?ks) (simp_all add: balanced_def)
      obtain r4 s4 where m: "mapRows rt cb (c_continueOnError cfg) ?g tkey ?rowsIn [] ?s3 = (r4, s4)"
        by (cases "mapRows rt cb (c_continueOnError cfg) ?g tkey ?rowsIn [] ?s3")
      have q4: "balanced s0 s4" using q3 mapRows_balanced[OF m] by (rule balanced_trans)
      show ?thesis
      proof (cases r4)
        case I4: (Inl e)
        with run tab t Inr K m have "s' = s4" by (simp add: processGroup_def Let_def)
        then show ?thesis using q4 by simp
      next
        case M: (Inr mapped)
        with run tab t Inr K m
        have "afterMapping rt cb cfg ?g tkey ?akey ?ks mapped s4 = (r, s')"
          by (simp add: processGroup_def Let_def)
        then have "balanced s4 s'" by (rule afterMapping_balanced)
        with q4 show ?thesis by (rule balanced_trans)
      qed
    qed
  qed
qed

lemma processGroups_balanced:
  "processGroups rt cb cfg gi gs s = (r, s') \<Longrightarrow> balanced s s'"
proof (induction gs arbitrary: gi s)
  case Nil
  then show ?case by (simp add: processGroups.simps)
next
  case (Cons g gs)
  obtain r1 s1 where p: "processGroup rt cb cfg gi g s = (r1, s1)"
    by (cases "processGroup rt cb cfg gi g s")
  note o1 = processGroup_balanced[OF p]
  show ?case
  proof (cases r1)
    case (Some e)
    with p Cons.prems(1) have "s' = s1" by (simp add: processGroups.simps)
    then show ?thesis using o1 by simp
  next
    case None
    with p Cons.prems(1) have "processGroups rt cb cfg (Suc gi) gs s1 = (r, s')"
      by (simp add: processGroups.simps)
    from o1 Cons.IH[OF this] show ?thesis by (rule balanced_trans)
  qed
qed

lemma runPragmas_balanced: "balanced s (runPragmas cb ps s)"
proof (induction ps arbitrary: s)
  case Nil
  then show ?case by (simp add: runPragmas.simps)
next
  case (Cons p ps)
  obtain r1 s1 where d: "dbRun cb p s = (r1, s1)" by (cases "dbRun cb p s")
  have q1: "balanced s s1" using d by (rule dbRun_balanced)
  show ?case
  proof (cases r1)
    case None
    with d have "runPragmas cb (p # ps) s = runPragmas cb ps s1" by (simp add: runPragmas.simps)
    then show ?thesis using q1 Cons.IH[of s1] balanced_trans by metis
  next
    case (Some e)
    with d have "runPragmas cb (p # ps) s = warn (WarnPragma e) s1" by (simp add: runPragmas.simps)
    then show ?thesis using q1 balanced_simps(2)[of s1] balanced_trans by metis
  qed
qed

text \<open>
  In every run, whatever its outcome, the run-wide error counter ends as the number of
  rows whose mapping threw or whose statement was rejected.
\<close>

lemma run_counts_failures:
  assumes "run rt cb ty p cfg w = (out, s)"
  shows "errors (totals s) = length (failures s)"
proof -
  let ?i = "init_state w :: ('a, 'b) state"
  have i: "errors (totals ?i) = 0" "failures ?i = []"
    by (simp_all add: init_state_def zero_counters_def)
  have "balanced ?i s"
  proof -
    obtain r0 s0 where t: "typedGet rt cb (if ty = [] then ''str'' else ty) p JNull ?i = (r0, s0)"
      by (cases "typedGet rt cb (if ty = [] then ''str'' else ty) p JNull ?i")
    have q0: "balanced ?i s0" using t by (rule typedGet_balanced)
    show ?thesis
    proof (cases r0)
      case (Inl e)
      with assms t have "s = s0" by (auto simp: run_def)
      then show ?thesis using q0 by simp
    next
      case (Inr pv)
      show ?thesis
      proof (cases "\<exists>path. pv = JStr path \<and> path \<noteq> []")
        case False
        with assms t Inr have "s = s0" by (cases pv) (auto simp: run_def)
        then show ?thesis using q0 by simp
      next
        case True
        then obtain path where pv: "pv = JStr path" "path \<noteq> []" by blast
        let ?s1 = "runPragmas cb (pragma_statements rt cfg) (called (DbOpen path) (world s0) s0)"
        have "balanced s0 (called (DbOpen path) (world s0) s0)" by simp
        then have "balanced s0 ?s1" using runPragmas_balanced balanced_trans by blast
        with q0 have q1: "balanced ?i ?s1" by (rule balanced_trans)
        let ?b = "if local_txMode cfg = ''all'' then beginTx cb ''all'' ?s1 else (None, ?s1)"
        obtain r2 s2 where b: "?b = (r2, s2)" by (cases ?b)
        have "balanced ?s1 s2" using b by (auto dest: beginTx_balanced split: if_splits)
        with q1 have q2: "balanced ?i s2" by (rule balanced_trans)
        show ?thesis
        proof (cases r2)
          case (Some e)
          with assms t Inr pv b have "s = s2" by (auto simp: run_def Let_def)
          then show ?thesis using q2 by simp
        next
          case None
          obtain r3 s3 where g: "processGroups rt cb cfg 0 (c_groups cfg) s2 = (r3, s3)"
            by (cases "processGroups rt cb cfg 0 (c_groups cfg) s2")
          have q3: "balanced ?i s3" using q2 processGroups_balanced[OF g] by (rule balanced_trans)
          have "s = s3 \<or> s = called DbClose (world s3) s3"
            using assms t Inr pv b None g by (cases r3) (auto simp: run_def Let_def)
          then show ?thesis using q3 by (auto simp: balanced_def called_def)
        qed
      qed
    qed
  qed
  then show ?thesis using i by (simp add: balanced_def)
qed

text \<open>
  C10. For every run that sends a summary: \<open>ok\<close> is true if and only if the run-wide
  error counter of the summary is zero; that counter is the number of failures of rows
  met during the run, one for each source row whose mapping threw and one for each
  mapped row whose statement was rejected, whether \<open>continueOnError\<close> suppressed them or
  not; so \<open>ok\<close> is true if and only if no row failed. The counters of the summary are
  the final \<open>totals\<close> and \<open>byTable\<close>.
\<close>

theorem summary_ok_iff_no_errors:
  assumes "run rt cb ty p cfg w = (Sent sm, s)"
  shows "ok sm = (errors (counts sm) = 0)
       \<and> errors (counts sm) = length (failures s)
       \<and> ok sm = (failures s = [])
       \<and> counts sm = totals s \<and> tables sm = byTable s"
proof -
  let ?i = "init_state w :: ('a, 'b) state"
  obtain r0 s0 where t: "typedGet rt cb (if ty = [] then ''str'' else ty) p JNull ?i = (r0, s0)"
    by (cases "typedGet rt cb (if ty = [] then ''str'' else ty) p JNull ?i")
  have sm: "ok sm = (errors (counts sm) = 0) \<and> counts sm = totals s \<and> tables sm = byTable s"
  proof (cases r0)
    case (Inl e)
    with assms t show ?thesis by (simp add: run_def)
  next
    case (Inr pv)
    show ?thesis
    proof (cases "\<exists>path. pv = JStr path \<and> path \<noteq> []")
      case False
      with assms t Inr show ?thesis by (cases pv) (auto simp: run_def)
    next
      case True
      then obtain path where pv: "pv = JStr path" "path \<noteq> []" by blast
      let ?s1 = "runPragmas cb (pragma_statements rt cfg) (called (DbOpen path) (world s0) s0)"
      let ?b = "if local_txMode cfg = ''all'' then beginTx cb ''all'' ?s1 else (None, ?s1)"
      obtain r2 s2 where b: "?b = (r2, s2)" by (cases ?b)
      obtain r3 s3 where g: "processGroups rt cb cfg 0 (c_groups cfg) s2 = (r3, s3)"
        by (cases "processGroups rt cb cfg 0 (c_groups cfg) s2")
      have "run rt cb ty p cfg w =
          (case r2 of
             Some e \<Rightarrow> (Failed e, s2)
           | None \<Rightarrow>
               (case r3 of
                  Some e \<Rightarrow> (Failed e, s3)
                | None \<Rightarrow> (Sent \<lparr>ok = (errors (totals s3) = 0), counts = totals s3,
                                  tables = byTable s3\<rparr>, called DbClose (world s3) s3)))"
        using t Inr pv b g by (cases r2; cases r3) (simp_all add: run_def Let_def)
      with assms show ?thesis
        by (cases r2; cases r3) (auto simp: called_def)
    qed
  qed
  have "errors (totals s) = length (failures s)" using assms by (rule run_counts_failures)
  with sm show ?thesis by auto
qed

lemma run_two_failures:
  "(case run x_rt x_collab ''str'' (JStr ''db'') (x_config ''perTable'' True [x_T, x_U True])
          [x_rows ''a'' [''bad'', ''x''], x_rows ''b'' [''zz'']] of
      (out, s) \<Rightarrow>
        out = Sent \<lparr>ok = False, counts = \<lparr>inserted = 1, updated = 0, errors = 2, skipped = 0\<rparr>,
                     tables = [(''T'', \<lparr>inserted = 1, updated = 0, errors = 1, skipped = 0, total = 2\<rparr>),
                               (''U'', \<lparr>inserted = 0, updated = 0, errors = 1, skipped = 0, total = 1\<rparr>)]\<rparr>
        \<and> failures s = [ExecFailed x_insert_T [JStr ''bad''] (ErrExternal ''SQLITE_CONSTRAINT''),
                         MapFailed (JObj [(''c'', JStr ''zz'')]) (ErrLookupFailed ''T'' ''zz'')])"
  by code_simp

theorem summary_ok_iff_no_errors_witness:
  "\<exists>sm. fst (run x_rt x_collab ''str'' (JStr ''db'') (x_config ''perTable'' True [x_T, x_U True])
                [x_rows ''a'' [''bad'', ''x''], x_rows ''b'' [''zz'']]) = Sent sm
        \<and> failures (snd (run x_rt x_collab ''str'' (JStr ''db'') (x_config ''perTable'' True [x_T, x_U True])
                          [x_rows ''a'' [''bad'', ''x''], x_rows ''b'' [''zz'']]))
            = [ExecFailed x_insert_T [JStr ''bad''] (ErrExternal ''SQLITE_CONSTRAINT''),
               MapFailed (JObj [(''c'', JStr ''zz'')]) (ErrLookupFailed ''T'' ''zz'')]
        \<and> errors (counts sm) = 2 \<and> inserted (counts sm) = 1 \<and> \<not> ok sm"
proof -
  let ?r = "run x_rt x_collab ''str'' (JStr ''db'') (x_config ''perTable'' True [x_T, x_U True])
              [x_rows ''a'' [''bad'', ''x''], x_rows ''b'' [''zz'']]"
  let ?sm = "\<lparr>ok = False, counts = \<lparr>inserted = 1, updated = 0, errors = 2, skipped = 0\<rparr>,
              tables = [(''T'', \<lparr>inserted = 1, updated = 0, errors = 1, skipped = 0, total = 2\<rparr>),
                        (''U'', \<lparr>inserted = 0, updated = 0, errors = 1, skipped = 0, total = 1\<rparr>)]\<rparr>"
  have f: "fst ?r = Sent ?sm"
    and l: "failures (snd ?r)
            = [ExecFailed x_insert_T [JStr ''bad''] (ErrExternal ''SQLITE_CONSTRAINT''),
               MapFailed (JObj [(''c'', JStr ''zz'')]) (ErrLookupFailed ''T'' ''zz'')]"
    using run_two_failures by (simp_all split: prod.splits)
  have "?r = (Sent ?sm, snd ?r)" using f by (metis prod.collapse)
  note th = summary_ok_iff_no_errors[OF this]
  have "errors (counts ?sm) = length (failures (snd ?r))" using th by blast
  moreover have "ok ?sm = (failures (snd ?r) = [])" using th by blast
  ultimately show ?thesis using f l by simp
qed

section \<open>The whole-run transaction\<close>

text \<open>
  C1. Under \<open>txMode = all\<close> the handler runs \<open>BEGIN\<close> and then no \<open>COMMIT\<close> and no
  \<open>ROLLBACK\<close>. A run of one group with one row that completes sends its summary after
  closing the connection with the transaction still open; the same run with a row whose
  statement fails (without \<open>continueOnError\<close>) ends with the error, the transaction
  open and the connection not closed. The claim asks for a \<open>COMMIT\<close> before the close
  in the first run and a \<open>ROLLBACK\<close> in the second.
\<close>

theorem whole_run_transaction_left_open:
  "(case run x_rt x_collab ''str'' (JStr ''db'') (x_config ''all'' False [x_T]) [x_rows ''a'' [''x'']] of
      (out, s) \<Rightarrow>
        out = Sent \<lparr>ok = True, counts = \<lparr>inserted = 1, updated = 0, errors = 0, skipped = 0\<rparr>,
                     tables = [(''T'', \<lparr>inserted = 1, updated = 0, errors = 0, skipped = 0, total = 1\<rparr>)]\<rparr>
        \<and> trace s = [DbOpen ''db'', DbRun ''BEGIN'', DbPrepare x_insert_T,
                     StmtRun x_insert_T [JStr ''x''], StmtFinalize x_insert_T, DbClose])
   \<and> (case run x_rt x_collab ''str'' (JStr ''db'') (x_config ''all'' False [x_T]) [x_rows ''a'' [''bad'']] of
      (out, s) \<Rightarrow>
        out = Failed (ErrExternal ''SQLITE_CONSTRAINT'')
        \<and> trace s = [DbOpen ''db'', DbRun ''BEGIN'', DbPrepare x_insert_T,
                     StmtRun x_insert_T [JStr ''bad'']])"
  by code_simp

section \<open>Invalid identifiers\<close>

text \<open>
  The claim C2 as first stated: an invalid identifier met while the INSERT statement is
  built aborts the run whatever \<open>continueOnError\<close> is. With \<open>continueOnError\<close> set, the
  run of a group whose \<open>updateColumns\<close> holds an empty name rolls the chunk back and
  sends a summary, with no error counted.
\<close>

theorem invalid_identifier_suppressed_counterexample:
  "buildInsertSQL x_rt (normGroup x_T_blank_update) [JStr ''c''] = Inl (ErrInvalidIdentifier [])
   \<and> (case run x_rt x_collab ''str'' (JStr ''db'') (x_config ''perTable'' True [x_T_blank_update])
             [x_rows ''a'' [''x'']] of
      (out, s) \<Rightarrow>
        out = Sent \<lparr>ok = True, counts = \<lparr>inserted = 0, updated = 0, errors = 0, skipped = 0\<rparr>,
                     tables = [(''T'', \<lparr>inserted = 0, updated = 0, errors = 0, skipped = 0, total = 1\<rparr>)]\<rparr>
        \<and> trace s = [DbOpen ''db'', DbRun ''BEGIN'', DbRun ''ROLLBACK'', DbClose])"
  by code_simp

lemma run_blank_update_abort:
  "fst (run x_rt x_collab ''str'' (JStr ''db'') (x_config ''perTable'' False [x_T_blank_update])
             [x_rows ''a'' [''x'']]) = Failed (ErrInvalidIdentifier [])"
  by code_simp

lemma select_chunks_nonempty:
  assumes "mapped \<noteq> []"
  shows "\<exists>c cs. select_chunks m n mapped = Some (c # cs)"
proof (cases "m = ''chunk''")
  case True
  have "chunkify mapped (max 1 n) = Some (blocks (nat (max 1 n)) mapped)"
    by (rule chunkify_blocks) simp
  moreover have "blocks (nat (max 1 n)) mapped
      = take (nat (max 1 n)) mapped # blocks (nat (max 1 n)) (drop (nat (max 1 n)) mapped)"
    using assms by (subst blocks.simps) simp
  ultimately show ?thesis using True by (simp add: select_chunks_def)
next
  case False
  then show ?thesis by (simp add: select_chunks_def)
qed

lemma dbRun_counters: "totals (snd (dbRun cb sql s)) = totals s \<and> byTable (snd (dbRun cb sql s)) = byTable s"
  by (simp add: dbRun_def called_def split: prod.split)

lemma beginTx_counters: "beginTx cb m s = (r, s1) \<Longrightarrow> totals s1 = totals s \<and> byTable s1 = byTable s"
  using dbRun_counters[of cb "''BEGIN''" s] by (auto simp: beginTx_def split: if_splits)

lemma rollbackTx_counters: "totals (rollbackTx cb m s) = totals s \<and> byTable (rollbackTx cb m s) = byTable s"
  using dbRun_counters[of cb "''ROLLBACK''" s] by (simp add: rollbackTx_def)

lemma execChunk_build_error:
  assumes "buildInsertSQL rt g cols = Inl e" and "beginTx cb txm s = (None, s1)"
  shows "execChunk rt cb coe txm g tkey cols ch s
           = (if coe then None else Some e, rollbackTx cb txm s1)"
  using assms by (simp add: execChunk_def chunkBody_def Let_def)

text \<open>
  C2 (as amended). When building the INSERT statement of a group throws (an invalid
  identifier), in a chunk whose transaction was begun: without \<open>continueOnError\<close> the
  chunk is rolled back and the error leaves the group's step, which aborts the run;
  with \<open>continueOnError\<close> the chunk is rolled back, the error is dropped and the loop
  goes on with the next chunk. In both cases no counter changes.
\<close>

theorem invalid_identifier_follows_continueOnError:
  fixes cfg :: "'n run_config" and g :: "'n group" and mapped :: "'n row list"
    and rt :: "'n js_runtime"
  defines "cols \<equiv> (if g_autoMap g then map JStr (map fst (hd mapped))
                    else filter (truthy rt) (map m_col (g_mapping g)))"
  defines "txm \<equiv> (if local_txMode cfg = ''all'' then ''off'' else local_txMode cfg)"
  assumes "mapped \<noteq> []" and "cols \<noteq> []"
    and "buildInsertSQL rt g cols = Inl e"
    and "beginTx cb txm s = (None, s1)"
  shows "(\<not> c_continueOnError cfg \<longrightarrow>
            afterMapping rt cb cfg g tkey akey ks mapped s = (Some e, rollbackTx cb txm s1))
       \<and> (c_continueOnError cfg \<longrightarrow>
            execChunks rt cb True txm g tkey cols (ch # chs) s
              = execChunks rt cb True txm g tkey cols chs (rollbackTx cb txm s1))
       \<and> totals (rollbackTx cb txm s1) = totals s
       \<and> byTable (rollbackTx cb txm s1) = byTable s"
proof -
  obtain c cs where sel: "select_chunks (local_txMode cfg) (local_chunkSize cfg) mapped = Some (c # cs)"
    using select_chunks_nonempty[OF assms(3)] by blast
  have ex: "\<not> c_continueOnError cfg \<Longrightarrow>
      execGroup rt cb cfg g tkey cols mapped s = (Some e, rollbackTx cb txm s1)"
    using sel execChunk_build_error[OF assms(5,6), of "c_continueOnError cfg" tkey c]
    by (simp add: execGroup_def txm_def[symmetric] execChunks.simps)
  have a: "\<not> c_continueOnError cfg \<longrightarrow>
            afterMapping rt cb cfg g tkey akey ks mapped s = (Some e, rollbackTx cb txm s1)"
    using ex assms(3,4) by (simp add: afterMapping_def cols_def[symmetric] Let_def)
  have b: "c_continueOnError cfg \<longrightarrow>
            execChunks rt cb True txm g tkey cols (ch # chs) s
              = execChunks rt cb True txm g tkey cols chs (rollbackTx cb txm s1)"
    using execChunk_build_error[OF assms(5,6), of True tkey ch] by (simp add: execChunks.simps)
  have c: "totals (rollbackTx cb txm s1) = totals s \<and> byTable (rollbackTx cb txm s1) = byTable s"
    using beginTx_counters[OF assms(6)] rollbackTx_counters[of cb txm s1] by simp
  show ?thesis using a b c by blast
qed

lemma processGroups_stops_at_error:
  "processGroup rt cb cfg gi g s = (Some e, s') \<Longrightarrow>
   processGroups rt cb cfg gi (g # gs) s = (Some e, s')"
  by (simp add: processGroups.simps)

lemma processGroups_passes_error:
  "processGroup rt cb cfg gi g s = (None, s1) \<Longrightarrow>
   processGroups rt cb cfg (Suc gi) gs s1 = (Some e, s') \<Longrightarrow>
   processGroups rt cb cfg gi (g # gs) s = (Some e, s')"
  by (simp add: processGroups.simps)

theorem invalid_identifier_follows_continueOnError_witness:
  "buildInsertSQL x_rt (normGroup x_T_blank_update) [JStr ''c''] = Inl (ErrInvalidIdentifier [])
   \<and> fst (afterMapping x_rt x_collab (x_config ''perTable'' False []) (normGroup x_T_blank_update)
             ''T'' ''T'' None [[(''c'', JStr ''x'')]] (init_state []))
       = Some (ErrInvalidIdentifier [])
   \<and> fst (run x_rt x_collab ''str'' (JStr ''db'') (x_config ''perTable'' False [x_T_blank_update])
             [x_rows ''a'' [''x'']]) = Failed (ErrInvalidIdentifier [])"
proof -
  let ?g = "normGroup x_T_blank_update"
  let ?cfg = "x_config ''perTable'' False [] :: xnum run_config"
  let ?mapped = "[[(''c'', JStr ''x'')]] :: xnum row list"
  let ?s = "init_state [] :: (xnum, (string \<times> xnum jsval) list) state"
  have cols: "(if g_autoMap ?g then map JStr (map fst (hd ?mapped))
               else filter (truthy x_rt) (map m_col (g_mapping ?g))) = [JStr ''c'']"
    by (simp add: normGroup_def x_T_blank_update_def x_T_def)
  have txm: "(if local_txMode ?cfg = ''all'' then ''off'' else local_txMode ?cfg) = ''perTable''"
    by (simp add: local_txMode_def x_config_def)
  have b: "buildInsertSQL x_rt ?g [JStr ''c''] = Inl (ErrInvalidIdentifier [])"
    by code_simp
  have bt: "beginTx x_collab ''perTable'' ?s = (None, called (DbRun ''BEGIN'') [] ?s)"
    by (simp add: beginTx_def dbRun_def init_state_def)
  have nc: "\<not> c_continueOnError ?cfg" by (simp add: x_config_def)
  have ne1: "?mapped \<noteq> []" by simp
  have ne2: "[JStr ''c'' :: xnum jsval] \<noteq> []" by simp
  note th = invalid_identifier_follows_continueOnError[where mapped = ?mapped and g = ?g
      and rt = x_rt and cb = x_collab and cfg = ?cfg and s = ?s and tkey = "''T''"
      and akey = "''T''" and ks = None, unfolded cols txm, OF ne1 ne2 b bt, THEN conjunct1,
      rule_format, OF nc]
  have "afterMapping x_rt x_collab ?cfg ?g ''T'' ''T'' None ?mapped ?s
      = (Some (ErrInvalidIdentifier []), rollbackTx x_collab ''perTable'' (called (DbRun ''BEGIN'') [] ?s))"
    using th by simp
  then show ?thesis using b run_blank_update_abort by simp
qed

section \<open>The key map of a byTemplate KeySpec\<close>

text \<open>
  The claim C5 as first stated: no map is produced for the alias of a \<open>byTemplate\<close>
  group. In a run of such a group \<open>T\<close> followed by a group that looks \<open>T\<close> up, \<open>ctxMaps\<close>
  holds an (empty) map for \<open>T\<close> stored by the first group, the lookup of the second
  group finds it, and the only warning is that of the skipped SELECT: the warning for a
  missing map is not given.
\<close>

theorem byTemplate_map_published_counterexample:
  "(case run x_rt x_collab ''str'' (JStr ''db'') (x_config ''perTable'' False [x_T_template, x_U False])
             [x_rows ''a'' [''x''], x_rows ''b'' [''x'']] of
      (out, s) \<Rightarrow>
        ctxMaps s = [(''T'', 0, [])] \<and> lookups s = [(1, ''T'', Some 0)]
        \<and> warnings s = [WarnNotByColumns ''T''])"
  by code_simp

lemma resolveLookupId_empty_map:
  assumes "map_of (ctxMaps t) a = Some (j, [])"
  shows "fst (resolveLookupId rt a provided t)
           = (case composeKeyWithSpec rt (map_of (keySpecs t) a) provided of
                Inl e \<Rightarrow> Inl e | Inr key \<Rightarrow> Inr JNull)
         \<and> warnings (snd (resolveLookupId rt a provided t)) = warnings t"
  using assms by (simp add: resolveLookupId_def Let_def split: sum.split)

text \<open>
  C5 (as amended). For a group whose KeySpec has mode \<open>byTemplate\<close> and that reaches the
  key-map step (the derivation of its keys not throwing), the SELECT that builds the map
  is skipped with a warning and no call is made on the connection; an empty map is
  stored for the alias in \<open>ctxMaps\<close>, in place of any earlier one; and a lookup against
  the alias then finds that map and returns \<open>null\<close>, with no warning, unless composing
  the key throws.
\<close>

theorem byTemplate_publishes_empty_map:
  assumes "ks_mode ks = ''byTemplate''"
    and "ks_template ks \<noteq> [] \<longrightarrow> map_err (\<lambda>r. keyOfMappedRow rt r ks) mapped = Inr keys"
    and "publishKeyMap rt cb g ks alias mapped s = (r, s')"
  shows "warnings s' = warnings s @ [WarnNotByColumns alias]
       \<and> trace s' = trace s
       \<and> map_of (ctxMaps s') alias = Some (cur s, [])
       \<and> fst (resolveLookupId rt alias provided s')
           = (case composeKeyWithSpec rt (map_of (keySpecs s') alias) provided of
                Inl e \<Rightarrow> Inl e | Inr key \<Rightarrow> Inr JNull)
       \<and> warnings (snd (resolveLookupId rt alias provided s')) = warnings s'"
proof -
  let ?s2 = "(warn (WarnNotByColumns alias) s)
               \<lparr>ctxMaps := AList.update alias (cur s, []) (ctxMaps s)\<rparr>"
  have k: "(if (ks_mode ks = ''byColumns'' \<and> ks_columns ks \<noteq> [])
               \<or> (ks_mode ks = ''byTemplate'' \<and> ks_template ks \<noteq> [])
            then map_err (\<lambda>r. keyOfMappedRow rt r ks) mapped else Inr [])
          = Inr (if ks_template ks \<noteq> [] then keys else [])"
    using assms(1,2) by simp
  have p: "publishKeyMap rt cb g ks alias mapped s
      = (if ks_returnPath ks \<noteq> [] then assignTypedPath cb ''flow'' (ks_returnPath ks) (JObj []) ?s2
         else (None, ?s2))"
    unfolding publishKeyMap_def k using assms(1) by (simp add: warn_def Let_def)
  have s': "warnings s' = warnings ?s2 \<and> trace s' = trace ?s2 \<and> ctxMaps s' = ctxMaps ?s2
            \<and> keySpecs s' = keySpecs ?s2"
    using assms(3) unfolding p
    by (auto simp: assignTypedPath_def split: if_splits prod.splits)
  have m: "map_of (ctxMaps s') alias = Some (cur s, [])"
    using s' by (simp add: warn_def update_conv')
  show ?thesis
    using s' m resolveLookupId_empty_map[OF m, of rt provided]
    by (simp add: warn_def)
qed

theorem byTemplate_publishes_empty_map_witness:
  "ks_mode (x_keyspec_c\<lparr>ks_mode := ''byTemplate'', ks_template := ''{{c}}''\<rparr>) = ''byTemplate''
   \<and> map_of (ctxMaps (snd (publishKeyMap x_rt x_collab x_T_template
                 (x_keyspec_c\<lparr>ks_mode := ''byTemplate'', ks_template := ''{{c}}''\<rparr>) ''T''
                 [[(''c'', JStr ''x'')]] (init_state [])))) ''T'' = Some (0, [])
   \<and> warnings (snd (publishKeyMap x_rt x_collab x_T_template
                 (x_keyspec_c\<lparr>ks_mode := ''byTemplate'', ks_template := ''{{c}}''\<rparr>) ''T''
                 [[(''c'', JStr ''x'')]] (init_state []))) = [WarnNotByColumns ''T'']"
proof -
  let ?ks = "x_keyspec_c\<lparr>ks_mode := ''byTemplate'', ks_template := ''{{c}}''\<rparr>"
  let ?mapped = "[[(''c'', JStr ''x'')]] :: xnum row list"
  let ?s = "init_state [] :: (xnum, (string \<times> xnum jsval) list) state"
  let ?p = "publishKeyMap x_rt x_collab x_T_template ?ks ''T'' ?mapped ?s"
  have a1: "ks_mode ?ks = ''byTemplate''" by simp
  have a2: "ks_template ?ks \<noteq> [] \<longrightarrow> map_err (\<lambda>r. keyOfMappedRow x_rt r ?ks) ?mapped = Inr [''x'']"
    by code_simp
  have a3: "?p = (fst ?p, snd ?p)" by simp
  note th = byTemplate_publishes_empty_map[OF a1 a2 a3]
  have "warnings (snd ?p) = warnings ?s @ [WarnNotByColumns ''T'']"
    using th by (rule conjunct1)
  moreover have "map_of (ctxMaps (snd ?p)) ''T'' = Some (cur ?s, [])"
    using th by simp
  ultimately show ?thesis by (simp add: init_state_def)
qed


end
